theory Spec2Isabelle
  imports Main "HOL-Library.Word" "HOL-Library.Sublist"
begin

section \<open>JavaScript strings\<close>

text \<open>
  A JavaScript string is a sequence of UTF-16 code units. The regular expressions of
  \<^verbatim>\<open>scraper-new.js\<close> carry no \<^verbatim>\<open>u\<close> flag, so they work on code units too.
  \<open>js\<close> turns an ASCII literal into such a string.
\<close>

type_synonym code_unit = "16 word"
type_synonym jsstring = "code_unit list"

definition js :: "string \<Rightarrow> jsstring" where
  "js s = map of_char s"

definition hyphen :: code_unit where
  "hyphen = 0x2D"

definition isDigit :: "code_unit \<Rightarrow> bool" where
  \<comment> \<open>\<^verbatim>\<open>\d\<close>\<close>
  "isDigit c = (0x30 \<le> c \<and> c \<le> 0x39)"

definition isWord :: "code_unit \<Rightarrow> bool" where
  \<comment> \<open>\<^verbatim>\<open>\w\<close>: \<^verbatim>\<open>[A-Za-z0-9_]\<close>\<close>
  "isWord c = ((0x41 \<le> c \<and> c \<le> 0x5A) \<or> (0x61 \<le> c \<and> c \<le> 0x7A) \<or> isDigit c \<or> c = 0x5F)"

definition isSpace :: "code_unit \<Rightarrow> bool" where
  \<comment> \<open>\<^verbatim>\<open>\s\<close>: ECMAScript WhiteSpace and LineTerminator code points\<close>
  "isSpace c = ((0x09 \<le> c \<and> c \<le> 0x0D) \<or> c = 0x20 \<or> c = 0xA0 \<or> c = 0x1680
      \<or> (0x2000 \<le> c \<and> c \<le> 0x200A) \<or> c = 0x2028 \<or> c = 0x2029 \<or> c = 0x202F
      \<or> c = 0x205F \<or> c = 0x3000 \<or> c = 0xFEFF)"

section \<open>URL builder\<close>

text \<open>
  \<^verbatim>\<open>
  const fmt = text => text
    .replace(/[^\w\s-]/g, '')
    .replace(/\s+/g, '-')
    .replace(/-+/g, '-')
    .replace(/^-+|-+$/g, '');
  \<close>
  \<open>replaceRuns P r\<close> is \<^verbatim>\<open>.replace(/X+/g, r)\<close> for a character class \<open>X\<close>: the
  greedy \<^verbatim>\<open>+\<close> takes a whole maximal run, the \<^verbatim>\<open>g\<close> flag goes on after it.
\<close>

function replaceRuns :: "(code_unit \<Rightarrow> bool) \<Rightarrow> jsstring \<Rightarrow> jsstring \<Rightarrow> jsstring" where
  "replaceRuns P r [] = []"
| "replaceRuns P r (c # cs) =
     (if P c then r @ replaceRuns P r (dropWhile P cs) else c # replaceRuns P r cs)"
  by pat_completeness auto
termination
  by (relation "measure (\<lambda>(P, r, cs). length cs)")
     (auto simp: less_Suc_eq_le length_dropWhile_le)

definition stripOther :: "jsstring \<Rightarrow> jsstring" where
  \<comment> \<open>\<^verbatim>\<open>.replace(/[^\w\s-]/g, '')\<close>\<close>
  "stripOther cs = filter (\<lambda>c. isWord c \<or> isSpace c \<or> c = hyphen) cs"

definition trimHyphens :: "jsstring \<Rightarrow> jsstring" where
  \<comment> \<open>\<^verbatim>\<open>.replace(/^-+|-+$/g, '')\<close>: the leading run, then the trailing run\<close>
  "trimHyphens cs = rev (dropWhile (\<lambda>c. c = hyphen) (rev (dropWhile (\<lambda>c. c = hyphen) cs)))"

definition fmt :: "jsstring \<Rightarrow> jsstring" where
  "fmt text = trimHyphens
     (replaceRuns (\<lambda>c. c = hyphen) [hyphen]
       (replaceRuns isSpace [hyphen]
         (stripOther text)))"

definition slugSegment :: "jsstring \<Rightarrow> jsstring \<Rightarrow> jsstring" where
  \<comment> \<open>\<^verbatim>\<open>${fmt(songName)}-${fmt(artistName)}\<close>\<close>
  "slugSegment songName artistName = fmt songName @ [hyphen] @ fmt artistName"

definition buildUrl :: "jsstring \<Rightarrow> jsstring \<Rightarrow> jsstring \<Rightarrow> jsstring" where
  "buildUrl artistName songName spotifyTrackId =
     js ''https://tunebat.com/Info/'' @ slugSegment songName artistName
       @ js ''/'' @ spotifyTrackId"

section \<open>String methods\<close>

definition trim :: "jsstring \<Rightarrow> jsstring" where
  \<comment> \<open>\<^verbatim>\<open>String.prototype.trim\<close>: white space and line terminators off both ends\<close>
  "trim cs = rev (dropWhile isSpace (rev (dropWhile isSpace cs)))"

definition strIncludes :: "jsstring \<Rightarrow> jsstring \<Rightarrow> bool" where
  \<comment> \<open>\<^verbatim>\<open>s.includes(x)\<close>\<close>
  "strIncludes s x = sublist x s"

definition lastSegment :: "jsstring \<Rightarrow> jsstring" where
  \<comment> \<open>\<^verbatim>\<open>s.split('/').pop()\<close>: what follows the last slash, all of \<open>s\<close> when there is none\<close>
  "lastSegment s = rev (takeWhile (\<lambda>c. c \<noteq> 0x2F) (rev s))"

section \<open>Regular expressions\<close>

text \<open>
  The fragment of ECMAScript regular expressions that the pattern table uses, with the
  backtracking order of the language: \<open>rmatch\<close> lists the ways a pattern matches at the
  start of the input, the one the engine finds first at the head. A state is the input
  still to read and the text of capture group 1, the only group of every pattern.
\<close>

datatype rx =
    Eps
  | Chr code_unit
  | Cls "(code_unit \<times> code_unit) list"
  | Seq rx rx
  | Alt rx rx
  | Star rx
  | Opt rx
  | Grp rx

type_synonym mstate = "jsstring \<times> jsstring option"

definition upper :: "code_unit \<Rightarrow> code_unit" where
  "upper c = (if 0x61 \<le> c \<and> c \<le> 0x7A then c - 0x20 else c)"

definition lower :: "code_unit \<Rightarrow> code_unit" where
  "lower c = (if 0x41 \<le> c \<and> c \<le> 0x5A then c + 0x20 else c)"

definition inRanges :: "(code_unit \<times> code_unit) list \<Rightarrow> code_unit \<Rightarrow> bool" where
  "inRanges rs c = list_ex (\<lambda>(lo, hi). lo \<le> c \<and> c \<le> hi) rs"

text \<open>
  Under the \<^verbatim>\<open>i\<close> flag (without \<^verbatim>\<open>u\<close>) two code units match when their
  canonical forms agree. Every character of the patterns below is an ASCII character or
  one of U+266F and U+266D, which have no case mapping, and a character outside ASCII is
  never canonicalised to an ASCII one: the ASCII case pairs are all that matters.
\<close>

definition clsMatch :: "bool \<Rightarrow> (code_unit \<times> code_unit) list \<Rightarrow> code_unit \<Rightarrow> bool" where
  "clsMatch ic rs c =
     (inRanges rs c \<or> (ic \<and> (inRanges rs (upper c) \<or> inRanges rs (lower c))))"

fun star :: "(mstate \<Rightarrow> mstate list) \<Rightarrow> nat \<Rightarrow> mstate \<Rightarrow> mstate list" where
  "star f 0 st = [st]"
| "star f (Suc n) st =
     concat (map (\<lambda>st'. if length (fst st') < length (fst st) then star f n st' else [])
       (f st)) @ [st]"

primrec rmatch :: "bool \<Rightarrow> rx \<Rightarrow> mstate \<Rightarrow> mstate list" where
  "rmatch ic Eps = (\<lambda>st. [st])"
| "rmatch ic (Chr p) = (\<lambda>st. case fst st of [] \<Rightarrow> []
     | c # cs \<Rightarrow> if clsMatch ic [(p, p)] c then [(cs, snd st)] else [])"
| "rmatch ic (Cls rs) = (\<lambda>st. case fst st of [] \<Rightarrow> []
     | c # cs \<Rightarrow> if clsMatch ic rs c then [(cs, snd st)] else [])"
| "rmatch ic (Seq a b) = (\<lambda>st. concat (map (rmatch ic b) (rmatch ic a st)))"
| "rmatch ic (Alt a b) = (\<lambda>st. rmatch ic a st @ rmatch ic b st)"
| "rmatch ic (Star a) = (\<lambda>st. star (rmatch ic a) (length (fst st)) st)"
| "rmatch ic (Opt a) = (\<lambda>st. rmatch ic a st @ [st])"
| "rmatch ic (Grp a) = (\<lambda>st.
     map (\<lambda>st'. (fst st', Some (take (length (fst st) - length (fst st')) (fst st))))
       (rmatch ic a st))"

text \<open>A pattern is its body and its \<^verbatim>\<open>i\<close> flag.\<close>

type_synonym pattern = "rx \<times> bool"

fun rsearch :: "pattern \<Rightarrow> jsstring \<Rightarrow> jsstring option option" where
  \<comment> \<open>\<^verbatim>\<open>text.match(pattern)\<close> without \<^verbatim>\<open>g\<close>: the leftmost start that matches;
      \<open>None\<close> is \<^verbatim>\<open>null\<close>, \<open>Some g\<close> a match whose group 1 is \<open>g\<close>\<close>
  "rsearch (r, ic) [] = (case rmatch ic r ([], None) of [] \<Rightarrow> None | st # _ \<Rightarrow> Some (snd st))"
| "rsearch (r, ic) (c # cs) =
     (case rmatch ic r (c # cs, None) of [] \<Rightarrow> rsearch (r, ic) cs | st # _ \<Rightarrow> Some (snd st))"

definition lit :: "string \<Rightarrow> rx" where
  "lit s = foldr (\<lambda>c r. Seq (Chr (of_char c)) r) s Eps"

definition seqs :: "rx list \<Rightarrow> rx" where
  "seqs rs = foldr Seq rs Eps"

definition Plus :: "rx \<Rightarrow> rx" where
  "Plus r = Seq r (Star r)"

definition digit :: rx where
  \<comment> \<open>\<^verbatim>\<open>\d\<close>\<close>
  "digit = Cls [(0x30, 0x39)]"

definition space :: rx where
  \<comment> \<open>\<^verbatim>\<open>\s\<close>\<close>
  "space = Cls [(0x09, 0x0D), (0x20, 0x20), (0xA0, 0xA0), (0x1680, 0x1680), (0x2000, 0x200A),
     (0x2028, 0x2029), (0x202F, 0x202F), (0x205F, 0x205F), (0x3000, 0x3000), (0xFEFF, 0xFEFF)]"

section \<open>The rendered document\<close>

text \<open>
  What \<^verbatim>\<open>page.evaluate\<close> sees: a tree of elements and text nodes. An element has its
  local name, its attributes as written, the two reflected URL properties the scraper
  reads (\<^verbatim>\<open>src\<close> and \<^verbatim>\<open>href\<close>, resolved by the browser) and its children.
  The \<^verbatim>\<open>href\<close> of an HTML anchor is a string; an element without that property gives
  \<^verbatim>\<open>undefined\<close>; the \<^verbatim>\<open>href\<close> of an SVG anchor is an object, not a string.
\<close>

datatype href_value = HrefUndefined | HrefString jsstring | HrefObject

datatype dnode =
    TextNode jsstring
  | Element jsstring "(jsstring \<times> jsstring) list" jsstring href_value "dnode list"

fun localName :: "dnode \<Rightarrow> jsstring" where
  "localName (Element n as s h cs) = n"
| "localName (TextNode t) = []"

fun src :: "dnode \<Rightarrow> jsstring" where
  "src (Element n as s h cs) = s"
| "src (TextNode t) = []"

fun href :: "dnode \<Rightarrow> href_value" where
  "href (Element n as s h cs) = h"
| "href (TextNode t) = HrefUndefined"

fun getAttribute :: "dnode \<Rightarrow> jsstring \<Rightarrow> jsstring option" where
  "getAttribute (Element n as s h cs) a = map_of as a"
| "getAttribute (TextNode t) a = None"

fun childNodes :: "dnode \<Rightarrow> dnode list" where
  "childNodes (Element n as s h cs) = cs"
| "childNodes (TextNode t) = []"

fun textContent :: "dnode \<Rightarrow> jsstring" where
  "textContent (TextNode t) = t"
| "textContent (Element n as s h cs) = concat (map textContent cs)"

fun elements :: "dnode \<Rightarrow> dnode list" where
  \<comment> \<open>the element and the elements below it, in tree order\<close>
  "elements (TextNode t) = []"
| "elements (Element n as s h cs) = Element n as s h cs # concat (map elements cs)"

definition descendants :: "dnode \<Rightarrow> dnode list" where
  "descendants e = concat (map elements (childNodes e))"

definition body :: "dnode \<Rightarrow> dnode option" where
  \<comment> \<open>\<^verbatim>\<open>document.body\<close>: the first \<^verbatim>\<open>body\<close> or \<^verbatim>\<open>frameset\<close> child of the root
      element, \<^verbatim>\<open>null\<close> when there is none\<close>
  "body doc = find (\<lambda>e. localName e = js ''body'' \<or> localName e = js ''frameset'')
     (childNodes doc)"

subsection \<open>Selectors\<close>

text \<open>
  The selectors of the scraper: a type selector, a class selector, an attribute substring
  selector \<^verbatim>\<open>[a*="v"]\<close>; a compound selector is a conjunction of these and a selector
  (one selector string) a comma-separated list of compounds. Class names and attribute
  values are compared case-sensitively, as in a document in no-quirks mode.
\<close>

datatype simple = Tag jsstring | Class jsstring | AttrContains jsstring jsstring

type_synonym selector = "simple list list"

definition isAsciiSpace :: "code_unit \<Rightarrow> bool" where
  "isAsciiSpace c = (c = 0x09 \<or> c = 0x0A \<or> c = 0x0C \<or> c = 0x0D \<or> c = 0x20)"

function tokens :: "jsstring \<Rightarrow> jsstring list" where
  \<comment> \<open>the class attribute split on ASCII white space\<close>
  "tokens [] = []"
| "tokens (c # cs) =
     (if isAsciiSpace c then tokens cs
      else takeWhile (\<lambda>c. \<not> isAsciiSpace c) (c # cs)
             # tokens (dropWhile (\<lambda>c. \<not> isAsciiSpace c) cs))"
  by pat_completeness auto
termination
  by (relation "measure length") (auto simp: less_Suc_eq_le length_dropWhile_le)

fun matchesSimple :: "dnode \<Rightarrow> simple \<Rightarrow> bool" where
  "matchesSimple e (Tag t) = (localName e = t)"
| "matchesSimple e (Class c) =
     (case getAttribute e (js ''class'') of None \<Rightarrow> False | Some v \<Rightarrow> c \<in> set (tokens v))"
| "matchesSimple e (AttrContains a x) =
     (case getAttribute e a of None \<Rightarrow> False | Some v \<Rightarrow> x \<noteq> [] \<and> strIncludes v x)"

definition matches :: "dnode \<Rightarrow> selector \<Rightarrow> bool" where
  "matches e sel = list_ex (\<lambda>compound. list_all (matchesSimple e) compound) sel"

definition querySelector :: "dnode list \<Rightarrow> selector \<Rightarrow> dnode option" where
  \<comment> \<open>the first of the elements, given in tree order, that the selector matches\<close>
  "querySelector es sel = find (\<lambda>e. matches e sel) es"

definition querySelectorAll :: "dnode list \<Rightarrow> selector \<Rightarrow> dnode list" where
  "querySelectorAll es sel = filter (\<lambda>e. matches e sel) es"

section \<open>Field extractor\<close>

record recommendation =
  rec_title :: jsstring
  rec_artist :: jsstring
  spotifyId :: jsstring
  rec_key :: jsstring
  rec_bpm :: jsstring
  rec_camelot :: jsstring
  rec_popularity :: jsstring
  rec_albumArt :: jsstring

record track_data =
  title :: jsstring
  artist :: jsstring
  album :: jsstring
  key :: jsstring
  camelot :: jsstring
  bpm :: jsstring
  duration :: jsstring
  releaseDate :: jsstring
  explicit :: bool
  popularity :: jsstring
  energy :: jsstring
  danceability :: jsstring
  happiness :: jsstring
  acousticness :: jsstring
  instrumentalness :: jsstring
  liveness :: jsstring
  speechiness :: jsstring
  loudness :: jsstring
  albumArt :: jsstring
  recommendations :: "recommendation list"

definition initialData :: track_data where
  "initialData = \<lparr> title = [], artist = [], album = [], key = [], camelot = [], bpm = [],
     duration = [], releaseDate = [], explicit = False, popularity = [], energy = [],
     danceability = [], happiness = [], acousticness = [], instrumentalness = [],
     liveness = [], speechiness = [], loudness = [], albumArt = [], recommendations = [] \<rparr>"

definition setField :: "string \<Rightarrow> jsstring \<Rightarrow> track_data \<Rightarrow> track_data" where
  \<comment> \<open>\<^verbatim>\<open>data[key] = value\<close> for the keys of the two tables\<close>
  "setField k v d =
    (if k = ''title'' then d\<lparr>title := v\<rparr>
     else if k = ''artist'' then d\<lparr>artist := v\<rparr>
     else if k = ''album'' then d\<lparr>album := v\<rparr>
     else if k = ''key'' then d\<lparr>key := v\<rparr>
     else if k = ''camelot'' then d\<lparr>camelot := v\<rparr>
     else if k = ''bpm'' then d\<lparr>bpm := v\<rparr>
     else if k = ''duration'' then d\<lparr>duration := v\<rparr>
     else if k = ''releaseDate'' then d\<lparr>releaseDate := v\<rparr>
     else if k = ''popularity'' then d\<lparr>popularity := v\<rparr>
     else if k = ''energy'' then d\<lparr>energy := v\<rparr>
     else if k = ''danceability'' then d\<lparr>danceability := v\<rparr>
     else if k = ''happiness'' then d\<lparr>happiness := v\<rparr>
     else if k = ''acousticness'' then d\<lparr>acousticness := v\<rparr>
     else if k = ''instrumentalness'' then d\<lparr>instrumentalness := v\<rparr>
     else if k = ''liveness'' then d\<lparr>liveness := v\<rparr>
     else if k = ''speechiness'' then d\<lparr>speechiness := v\<rparr>
     else if k = ''loudness'' then d\<lparr>loudness := v\<rparr>
     else d)"

text \<open>An exception is its message.\<close>

type_synonym exn = jsstring

definition typeError :: exn where
  "typeError = js ''TypeError''"

fun getElement :: "dnode \<Rightarrow> selector list \<Rightarrow> dnode option" where
  "getElement doc [] = None"
| "getElement doc (selector # selectors) =
     (case querySelector (elements doc) selector of
        Some element \<Rightarrow> Some element
      | None \<Rightarrow> getElement doc selectors)"

definition getText :: "dnode \<Rightarrow> selector list \<Rightarrow> jsstring" where
  "getText doc selectors =
     (case getElement doc selectors of None \<Rightarrow> [] | Some element \<Rightarrow> trim (textContent element))"

definition findText :: "dnode \<Rightarrow> pattern \<Rightarrow> exn + jsstring" where
  \<comment> \<open>reading \<^verbatim>\<open>textContent\<close> of a \<^verbatim>\<open>null\<close> body throws, and so does \<^verbatim>\<open>trim\<close> on a
      group that did not take part in the match\<close>
  "findText doc pattern =
     (case body doc of
        None \<Rightarrow> Inl typeError
      | Some b \<Rightarrow>
          (case rsearch pattern (textContent b) of
             None \<Rightarrow> Inr []
           | Some None \<Rightarrow> Inl typeError
           | Some (Some g) \<Rightarrow> Inr (trim g)))"

definition metaSelectors :: "(string \<times> selector list) list" where
  "metaSelectors =
    [(''title'', [[[Tag (js ''h1'')]], [[AttrContains (js ''class'') (js ''title'')]],
        [[AttrContains (js ''class'') (js ''name'')]]]),
     (''artist'', [[[Class (js ''artist-name'')]], [[AttrContains (js ''class'') (js ''artist'')]],
        [[AttrContains (js ''class'') (js ''performer'')]]]),
     (''album'', [[[Class (js ''album-name'')]], [[AttrContains (js ''class'') (js ''album'')]]])]"

fun metaPass :: "dnode \<Rightarrow> (string \<times> selector list) list \<Rightarrow> track_data
    \<Rightarrow> track_data \<times> bool list" where
  \<comment> \<open>the \<^verbatim>\<open>map\<close> that fills the three fields and returns \<^verbatim>\<open>!!data[key]\<close> for each\<close>
  "metaPass doc [] d = (d, [])"
| "metaPass doc ((k, selectors) # rows) d =
     (let v = getText doc selectors;
          (d', rs) = metaPass doc rows (setField k v d)
      in (d', (v \<noteq> []) # rs))"

definition albumArtSelector :: selector where
  \<comment> \<open>\<^verbatim>\<open>img[alt*="album"], img[alt*="Album"], img[src*="album"]\<close>\<close>
  "albumArtSelector =
    [[Tag (js ''img''), AttrContains (js ''alt'') (js ''album'')],
     [Tag (js ''img''), AttrContains (js ''alt'') (js ''Album'')],
     [Tag (js ''img''), AttrContains (js ''src'') (js ''album'')]]"

definition labelled :: "string \<Rightarrow> rx \<Rightarrow> rx" where
  \<comment> \<open>\<^verbatim>\<open>Label:\s*(...)\<close>\<close>
  "labelled l r = seqs [lit l, Chr 0x3A, Star space, Grp r]"

definition keyName :: rx where
  \<comment> \<open>\<^verbatim>\<open>[A-G][\<sharp>\<flat>]?\s*(?:Major|Minor|maj|min)\<close>, the second class being U+266F and U+266D\<close>
  "keyName = seqs [Cls [(0x41, 0x47)], Opt (Cls [(0x266F, 0x266F), (0x266D, 0x266D)]),
     Star space, Alt (lit ''Major'') (Alt (lit ''Minor'') (Alt (lit ''maj'') (lit ''min'')))]"

definition camelotCode :: rx where
  \<comment> \<open>\<^verbatim>\<open>\d+[AB]\<close>\<close>
  "camelotCode = seqs [Plus digit, Cls [(0x41, 0x42)]]"

definition percentOf :: "string \<Rightarrow> pattern" where
  \<comment> \<open>\<^verbatim>\<open>/(\d+)\s*(?:\/\s*\d+)?\s*Name/i\<close>\<close>
  "percentOf name = (seqs [Grp (Plus digit), Star space,
     Opt (seqs [Chr 0x2F, Star space, Plus digit]), Star space, lit name], True)"

definition patternTable :: "(string \<times> pattern list) list" where
  "patternTable =
    [(''key'', [(labelled ''Key'' keyName, True), (Grp keyName, True)]),
     (''camelot'', [(labelled ''Camelot'' camelotCode, True), (Grp camelotCode, False)]),
     (''bpm'', [(labelled ''BPM'' (Plus digit), True), (labelled ''Tempo'' (Plus digit), True),
        (seqs [Grp (Plus digit), Star space, lit ''BPM''], True)]),
     (''duration'', [(labelled ''Duration'' (seqs [Plus digit, Chr 0x3A, Plus digit]), True)]),
     (''releaseDate'', [(labelled ''Release Date''
        (seqs [Plus (Cls [(0x41, 0x5A), (0x61, 0x7A)]), Plus space, digit, Opt digit,
           Opt (Chr 0x2C), Plus space, digit, digit, digit, digit]), True)]),
     (''popularity'', [percentOf ''Popularity'']),
     (''energy'', [percentOf ''Energy'']),
     (''danceability'', [percentOf ''Danceability'']),
     (''happiness'', [percentOf ''Happiness'']),
     (''acousticness'', [percentOf ''Acousticness'']),
     (''instrumentalness'', [percentOf ''Instrumentalness'']),
     (''liveness'', [percentOf ''Liveness'']),
     (''speechiness'', [percentOf ''Speechiness'']),
     (''loudness'', [(seqs [Grp (seqs [Opt (Chr 0x2D), Plus digit,
           Opt (seqs [Chr 0x2E, Plus digit])]),
         Star space, Opt (lit ''dB''), Star space, lit ''Loudness''], True)])]"

fun firstValue :: "dnode \<Rightarrow> pattern list \<Rightarrow> exn + jsstring option" where
  \<comment> \<open>the inner \<^verbatim>\<open>for\<close> loop: the value of the first pattern that gives a non-empty one\<close>
  "firstValue doc [] = Inr None"
| "firstValue doc (pattern # patterns) =
     (case findText doc pattern of
        Inl e \<Rightarrow> Inl e
      | Inr v \<Rightarrow> if v \<noteq> [] then Inr (Some v) else firstValue doc patterns)"

fun patternPass :: "dnode \<Rightarrow> (string \<times> pattern list) list \<Rightarrow> track_data \<Rightarrow> exn + track_data" where
  \<comment> \<open>the \<^verbatim>\<open>forEach\<close> over the pattern table\<close>
  "patternPass doc [] d = Inr d"
| "patternPass doc ((k, patterns) # rows) d =
     (case firstValue doc patterns of
        Inl e \<Rightarrow> Inl e
      | Inr None \<Rightarrow> patternPass doc rows d
      | Inr (Some v) \<Rightarrow> patternPass doc rows (setField k v d))"

definition explicitTest :: "dnode \<Rightarrow> exn + bool" where
  \<comment> \<open>\<^verbatim>\<open>/Explicit:\s*Yes/i.test(document.body.textContent)\<close>\<close>
  "explicitTest doc =
     (case body doc of
        None \<Rightarrow> Inl typeError
      | Some b \<Rightarrow> Inr (rsearch (seqs [lit ''Explicit:'', Star space, lit ''Yes''], True)
                       (textContent b) \<noteq> None))"

section \<open>Recommendation parser\<close>

definition textOf :: "dnode option \<Rightarrow> jsstring" where
  \<comment> \<open>\<^verbatim>\<open>e?.textContent?.trim() || ''\<close>\<close>
  "textOf e = (case e of None \<Rightarrow> [] | Some element \<Rightarrow> trim (textContent element))"

definition nth_opt :: "'a list \<Rightarrow> nat \<Rightarrow> 'a option" where
  \<comment> \<open>indexing a node list: \<^verbatim>\<open>undefined\<close> out of range\<close>
  "nth_opt xs i = (if i < length xs then Some (xs ! i) else None)"

definition spotifyLink :: "dnode \<Rightarrow> href_value" where
  \<comment> \<open>\<^verbatim>\<open>track.querySelector('.NWuk-[href*="spotify.com"]')?.href || ''\<close>\<close>
  "spotifyLink track =
     (case querySelector (descendants track)
             [[Class (js ''NWuk-''), AttrContains (js ''href'') (js ''spotify.com'')]] of
        None \<Rightarrow> HrefString []
      | Some a \<Rightarrow> (case href a of HrefUndefined \<Rightarrow> HrefString [] | h \<Rightarrow> h))"

definition trackIdOf :: "dnode \<Rightarrow> exn + jsstring" where
  \<comment> \<open>\<^verbatim>\<open>spotifyLink.split('/').pop()\<close>; an object has no \<^verbatim>\<open>split\<close> method\<close>
  "trackIdOf track =
     (case spotifyLink track of
        HrefString s \<Rightarrow> Inr (lastSegment s)
      | _ \<Rightarrow> Inl typeError)"

definition parseRecommendation :: "dnode \<Rightarrow> exn + recommendation option" where
  \<comment> \<open>the body of the \<^verbatim>\<open>try\<close> block for one fragment; \<open>Some\<close> is what it pushes\<close>
  "parseRecommendation track =
     (let title = textOf (querySelector (descendants track) [[Class (js ''aZDDf'')]]);
          artist = textOf (querySelector (descendants track) [[Class (js ''_2zAVA'')]])
      in case trackIdOf track of
           Inl e \<Rightarrow> Inl e
         | Inr trackId \<Rightarrow>
            (let key = textOf (querySelector (descendants track) [[Class (js ''lAjUd'')]]);
                 bpm = textOf (nth_opt (querySelectorAll (descendants track) [[Class (js ''lAjUd'')]]) 1);
                 camelot = textOf (nth_opt (querySelectorAll (descendants track) [[Class (js ''lAjUd'')]]) 2);
                 popularity = textOf (nth_opt (querySelectorAll (descendants track) [[Class (js ''lAjUd'')]]) 3);
                 albumArt = (case querySelector (descendants track) [[Tag (js ''img'')]] of
                               None \<Rightarrow> [] | Some img \<Rightarrow> src img)
             in if trackId \<noteq> []
                then Inr (Some \<lparr> rec_title = title, rec_artist = artist, spotifyId = trackId,
                       rec_key = key, rec_bpm = bpm, rec_camelot = camelot,
                       rec_popularity = popularity, rec_albumArt = albumArt \<rparr>)
                else Inr None))"

fun parseRecommendations :: "dnode list \<Rightarrow> recommendation list \<Rightarrow> recommendation list" where
  \<comment> \<open>\<^verbatim>\<open>recommendedTracks.forEach\<close>: the \<^verbatim>\<open>catch\<close> of a fragment logs and goes on\<close>
  "parseRecommendations [] recs = recs"
| "parseRecommendations (track # tracks) recs =
     (case parseRecommendation track of
        Inl e \<Rightarrow> parseRecommendations tracks recs
      | Inr None \<Rightarrow> parseRecommendations tracks recs
      | Inr (Some r) \<Rightarrow> parseRecommendations tracks (recs @ [r]))"

definition recommendedTracks :: "dnode \<Rightarrow> dnode list" where
  \<comment> \<open>\<^verbatim>\<open>document.querySelectorAll('.ant-row.pDoqI')\<close>\<close>
  "recommendedTracks doc =
     querySelectorAll (elements doc) [[Class (js ''ant-row''), Class (js ''pDoqI'')]]"

definition extractPage :: "dnode \<Rightarrow> exn + track_data option" where
  \<comment> \<open>the function given to \<^verbatim>\<open>page.evaluate\<close>; \<open>Inr None\<close> is \<^verbatim>\<open>null\<close>\<close>
  "extractPage doc =
     (let (d, metaResults) = metaPass doc metaSelectors initialData
      in if \<not> list_ex (\<lambda>r. r) metaResults then Inr None
         else
           (let d = d\<lparr>albumArt := (case getElement doc [albumArtSelector] of
                                      None \<Rightarrow> [] | Some img \<Rightarrow> src img)\<rparr>
            in case patternPass doc patternTable d of
                 Inl e \<Rightarrow> Inl e
               | Inr d \<Rightarrow>
                  (case explicitTest doc of
                     Inl e \<Rightarrow> Inl e
                   | Inr b \<Rightarrow>
                      Inr (Some (d\<lparr>explicit := b,
                        recommendations := parseRecommendations (recommendedTracks doc) []\<rparr>)))))"

section \<open>Navigation retry loop\<close>

text \<open>
  What the browser does on one attempt: \<^verbatim>\<open>page.goto\<close> throws or not, \<^verbatim>\<open>page.content\<close>
  gives the serialised page or throws, \<^verbatim>\<open>page.screenshot\<close> throws or not, and
  \<^verbatim>\<open>page.evaluate\<close> runs the extractor on the rendered document or fails on its own.
  The timed pauses are recorded with their base and the width of their random part, in
  milliseconds; console output is left out.
\<close>

record attempt =
  goto :: "exn option"
  content :: "exn + jsstring"
  screenshot :: "exn option"
  document :: "exn + dnode"

datatype event =
    Launch jsstring
  | Navigate jsstring
  | Pause nat nat
  | Screenshot jsstring
  | Close

datatype outcome = Blocked | Extracted track_data | NoData | Thrown exn

definition runAttempt :: "jsstring \<Rightarrow> attempt \<Rightarrow> outcome \<times> event list" where
  \<comment> \<open>the \<^verbatim>\<open>try\<close> block of the loop body\<close>
  "runAttempt url a =
     (case goto a of
        Some e \<Rightarrow> (Thrown e, [Navigate url])
      | None \<Rightarrow>
         (case content a of
            Inl e \<Rightarrow> (Thrown e, [Navigate url, Pause 3956 1487])
          | Inr c \<Rightarrow>
             if strIncludes c (js ''security check'') \<or> strIncludes c (js ''Too Many Requests'')
             then (Blocked, [Navigate url, Pause 3956 1487, Pause 4000 2000])
             else
               (case screenshot a of
                  Some e \<Rightarrow> (Thrown e, [Navigate url, Pause 3956 1487])
                | None \<Rightarrow>
                   (case document a of
                      Inl e \<Rightarrow> (Thrown e, [Navigate url, Pause 3956 1487, Screenshot (js ''debug.png'')])
                    | Inr doc \<Rightarrow>
                       (case extractPage doc of
                          Inl e \<Rightarrow> (Thrown e, [Navigate url, Pause 3956 1487, Screenshot (js ''debug.png'')])
                        | Inr None \<Rightarrow> (NoData, [Navigate url, Pause 3956 1487, Screenshot (js ''debug.png'')])
                        | Inr (Some d) \<Rightarrow>
                            (Extracted d, [Navigate url, Pause 3956 1487, Screenshot (js ''debug.png'')]))))))"

fun retryLoop :: "jsstring \<Rightarrow> (nat \<Rightarrow> attempt) \<Rightarrow> nat \<Rightarrow> nat \<Rightarrow> event list
    \<Rightarrow> track_data option \<times> event list" where
  \<comment> \<open>\<^verbatim>\<open>while (retries > 0)\<close>; \<open>n\<close> counts the attempts made so far\<close>
  "retryLoop url attempts 0 n trace = (None, trace)"
| "retryLoop url attempts (Suc retries) n trace =
     (case runAttempt url (attempts n) of
        (Extracted d, evs) \<Rightarrow> (Some d, trace @ evs)
      | (Blocked, evs) \<Rightarrow> retryLoop url attempts retries (Suc n) (trace @ evs)
      | (NoData, evs) \<Rightarrow> retryLoop url attempts retries (Suc n) (trace @ evs @ [Pause 2500 1000])
      | (Thrown e, evs) \<Rightarrow>
          retryLoop url attempts retries (Suc n)
            (trace @ evs @ (if retries > 0 then [Pause 4500 1500] else [])))"

section \<open>Result assembler\<close>

datatype result_data = EmptyObject | Data track_data

record scrape_result =
  success :: bool
  url :: "jsstring option"
  data :: "result_data option"
  error :: "jsstring option"
  debugImagePath :: jsstring

text \<open>
  The browser of one invocation: \<^verbatim>\<open>which chromium\<close> gives a path or fails,
  \<^verbatim>\<open>puppeteer.launch\<close> throws or not, the page set-up calls (\<^verbatim>\<open>newPage\<close> to
  \<^verbatim>\<open>evaluateOnNewDocument\<close>) throw or not, then the attempts, and \<^verbatim>\<open>browser.close\<close>.
\<close>

record browser =
  whichChromium :: "exn + jsstring"
  launch :: "exn option"
  pageSetup :: "exn option"
  attempts :: "nat \<Rightarrow> attempt"
  closeBrowser :: "exn option"

definition tryBlock :: "jsstring \<Rightarrow> jsstring \<Rightarrow> jsstring \<Rightarrow> browser
    \<Rightarrow> scrape_result \<times> event list" where
  \<comment> \<open>the \<^verbatim>\<open>try\<close> block of \<^verbatim>\<open>scrapeTunebatData\<close> with its \<^verbatim>\<open>catch\<close>\<close>
  "tryBlock artistName songName spotifyTrackId b =
     (case pageSetup b of
        Some e \<Rightarrow>
          (\<lparr> success = False, url = None, data = None, error = Some e,
             debugImagePath = js ''debug.png'' \<rparr>, [])
      | None \<Rightarrow>
         (let url = buildUrl artistName songName spotifyTrackId;
              (pageData, trace) = retryLoop url (attempts b) 3 0 []
          in (\<lparr> success = (pageData \<noteq> None),
                 url = Some url,
                 data = Some (case pageData of None \<Rightarrow> EmptyObject | Some d \<Rightarrow> Data d),
                 error = (if pageData = None then Some (js ''Failed to extract data'') else None),
                 debugImagePath = js ''debug.png'' \<rparr>, trace)))"

definition scrapeTunebatData :: "jsstring \<Rightarrow> jsstring \<Rightarrow> jsstring \<Rightarrow> browser
    \<Rightarrow> (exn + scrape_result) \<times> event list" where
  \<comment> \<open>\<open>Inl\<close>: the promise is rejected, the exception reaches the caller\<close>
  "scrapeTunebatData artistName songName spotifyTrackId b =
     (case whichChromium b of
        Inl e \<Rightarrow> (Inl e, [])
      | Inr chromiumPath \<Rightarrow>
         (case launch b of
            Some e \<Rightarrow> (Inl e, [])
          | None \<Rightarrow>
             (let (r, trace) = tryBlock artistName songName spotifyTrackId b
              in case closeBrowser b of
                   Some e \<Rightarrow> (Inl e, Launch (trim chromiumPath) # trace)
                 | None \<Rightarrow> (Inr r, Launch (trim chromiumPath) # trace @ [Close]))))"

section \<open>Observations on traces, attempts and fragments\<close>

fun navigations :: "event list \<Rightarrow> nat" where
  \<comment> \<open>how many times \<^verbatim>\<open>page.goto\<close> was called\<close>
  "navigations [] = 0"
| "navigations (Navigate u # evs) = Suc (navigations evs)"
| "navigations (ev # evs) = navigations evs"

fun screenshots :: "event list \<Rightarrow> nat" where
  \<comment> \<open>how many times the screenshot file was written\<close>
  "screenshots [] = 0"
| "screenshots (Screenshot p # evs) = Suc (screenshots evs)"
| "screenshots (ev # evs) = screenshots evs"

definition blockSignature :: "jsstring \<Rightarrow> bool" where
  "blockSignature c = (strIncludes c (js ''security check'') \<or> strIncludes c (js ''Too Many Requests''))"

definition detectsBlock :: "attempt \<Rightarrow> bool" where
  \<comment> \<open>the page loads, its content is read and shows a block signature\<close>
  "detectsBlock a = (goto a = None \<and> (case content a of Inl e \<Rightarrow> False | Inr c \<Rightarrow> blockSignature c))"

definition outcomeOf :: "attempt \<Rightarrow> outcome" where
  "outcomeOf a = fst (runAttempt [] a)"

definition yieldsRecord :: "attempt \<Rightarrow> bool" where
  "yieldsRecord a = (case outcomeOf a of Extracted d \<Rightarrow> True | _ \<Rightarrow> False)"

definition hasTrackId :: "dnode \<Rightarrow> bool" where
  \<comment> \<open>the fragment has a derived identifier and it is not empty\<close>
  "hasTrackId track = (case trackIdOf track of Inl e \<Rightarrow> False | Inr trackId \<Rightarrow> trackId \<noteq> [])"

definition entryOf :: "dnode \<Rightarrow> recommendation option" where
  \<comment> \<open>the entry a fragment contributes, if any\<close>
  "entryOf track = (case parseRecommendation track of Inr (Some r) \<Rightarrow> Some r | _ \<Rightarrow> None)"

definition isAlbumImage :: "dnode \<Rightarrow> bool" where
  \<comment> \<open>an image whose \<^verbatim>\<open>alt\<close> contains \<^verbatim>\<open>album\<close> or \<^verbatim>\<open>Album\<close>, or whose \<^verbatim>\<open>src\<close>
      attribute contains \<^verbatim>\<open>album\<close>\<close>
  "isAlbumImage e =
     (localName e = js ''img'' \<and>
       ((case getAttribute e (js ''alt'') of None \<Rightarrow> False
           | Some v \<Rightarrow> sublist (js ''album'') v \<or> sublist (js ''Album'') v) \<or>
        (case getAttribute e (js ''src'') of None \<Rightarrow> False | Some v \<Rightarrow> sublist (js ''album'') v)))"

subsection \<open>Pages and browsers for the examples\<close>

definition el :: "string \<Rightarrow> (string \<times> string) list \<Rightarrow> dnode list \<Rightarrow> dnode" where
  \<comment> \<open>an element without URL properties\<close>
  "el n as cs = Element (js n) (map (\<lambda>(a, v). (js a, js v)) as) [] HrefUndefined cs"

definition txt_node :: "string \<Rightarrow> dnode" where
  "txt_node s = TextNode (js s)"

definition page :: "dnode list \<Rightarrow> dnode" where
  "page cs = el ''html'' [] [el ''head'' [] [], el ''body'' [] cs]"

definition serving :: "jsstring \<Rightarrow> dnode \<Rightarrow> attempt" where
  \<comment> \<open>an attempt on which every browser call succeeds\<close>
  "serving c doc = \<lparr> goto = None, content = Inr c, screenshot = None, document = Inr doc \<rparr>"

definition chromium :: "(nat \<Rightarrow> attempt) \<Rightarrow> browser" where
  \<comment> \<open>a browser that is found, launches, sets the page up and closes\<close>
  "chromium f = \<lparr> whichChromium = Inr (js ''/usr/bin/chromium''), launch = None,
     pageSetup = None, attempts = f, closeBrowser = None \<rparr>"

definition mockPage :: dnode where
  "mockPage = page [el ''h1'' [] [txt_node ''One More Time''],
     el ''div'' [] [txt_node ''Key: F Minor''],
     el ''div'' [] [txt_node ''120 BPM''],
     el ''div'' [] [txt_node ''Energy: 75 Energy'']]"

definition blockPage :: attempt where
  "blockPage = serving (js ''<html><head></head><body>Too Many Requests</body></html>'')
     (page [txt_node ''Too Many Requests''])"

definition mockContent :: jsstring where
  "mockContent = js (''<html><head></head><body><h1>One More Time</h1><div>Key: F Minor</div>''
     @ ''<div>120 BPM</div><div>Energy: 75 Energy</div></body></html>'')"

definition mockData :: track_data where
  "mockData = initialData\<lparr>title := js ''One More Time'', key := js ''F Minor'',
     bpm := js ''120'', energy := js ''75''\<rparr>"

definition secondTry :: "nat \<Rightarrow> attempt" where
  \<comment> \<open>blocked on every attempt but the second, which serves the mock page\<close>
  "secondTry n = (if n = 1 then serving mockContent mockPage else blockPage)"

definition keysOnly :: dnode where
  \<comment> \<open>pattern-matchable text, but no element for title, artist or album\<close>
  "keysOnly = page [el ''div'' [] [txt_node ''Key: F Minor 120 BPM Energy: 75 Energy'']]"

text \<open>
  The album art as the specification words it: the first image whose \<^verbatim>\<open>alt\<close> or
  \<^verbatim>\<open>src\<close> attribute contains "album" in any mix of upper and lower case.
\<close>

definition containsAlbumAnyCase :: "jsstring \<Rightarrow> bool" where
  "containsAlbumAnyCase v = sublist (js ''album'') (map lower v)"

definition albumArtSpec :: "dnode \<Rightarrow> jsstring" where
  "albumArtSpec doc =
     (case find (\<lambda>e. localName e = js ''img'' \<and>
            ((case getAttribute e (js ''alt'') of None \<Rightarrow> False | Some v \<Rightarrow> containsAlbumAnyCase v) \<or>
             (case getAttribute e (js ''src'') of None \<Rightarrow> False | Some v \<Rightarrow> containsAlbumAnyCase v)))
          (elements doc) of
        None \<Rightarrow> []
      | Some img \<Rightarrow> src img)"

definition extractedAlbumArt :: "dnode \<Rightarrow> jsstring option" where
  \<comment> \<open>\<^verbatim>\<open>data.albumArt\<close> of the record the extractor returns, if it returns one\<close>
  "extractedAlbumArt doc =
     (case extractPage doc of Inr (Some d) \<Rightarrow> Some (albumArt d) | _ \<Rightarrow> None)"

definition image :: "string \<Rightarrow> string \<Rightarrow> dnode" where
  \<comment> \<open>an image whose \<^verbatim>\<open>src\<close> is an absolute URL, so that the property is the attribute\<close>
  "image alt s = Element (js ''img'') [(js ''alt'', js alt), (js ''src'', js s)] (js s)
     HrefUndefined []"

definition upperAlbumPage :: dnode where
  "upperAlbumPage = page [el ''h1'' [] [txt_node ''One More Time''],
     image ''ALBUM cover'' ''https://cdn.example/a.jpg'']"

definition albumPage :: dnode where
  "albumPage = page [el ''h1'' [] [txt_node ''One More Time''],
     image ''logo'' ''https://cdn.example/logo.png'',
     image ''Album cover'' ''https://cdn.example/a.jpg'',
     image ''cover'' ''https://cdn.example/album/b.jpg'']"

definition anchor :: "string \<Rightarrow> dnode" where
  \<comment> \<open>an HTML link of a track card, its \<^verbatim>\<open>href\<close> an absolute URL\<close>
  "anchor h = Element (js ''a'') [(js ''class'', js ''NWuk-''), (js ''href'', js h)] []
     (HrefString (js h)) []"

definition svgAnchor :: "string \<Rightarrow> dnode" where
  \<comment> \<open>an SVG link: its \<^verbatim>\<open>href\<close> property is an object\<close>
  "svgAnchor h = Element (js ''a'') [(js ''class'', js ''NWuk-''), (js ''href'', js h)] []
     HrefObject []"

definition card :: "string \<Rightarrow> dnode list \<Rightarrow> dnode" where
  \<comment> \<open>a related-track fragment with a title and the given links\<close>
  "card t links = el ''div'' [(''class'', ''ant-row pDoqI'')]
     (el ''div'' [(''class'', ''aZDDf'')] [txt_node t] # links)"

definition entry :: "string \<Rightarrow> string \<Rightarrow> recommendation" where
  "entry t i = \<lparr> rec_title = js t, rec_artist = [], spotifyId = js i, rec_key = [],
     rec_bpm = [], rec_camelot = [], rec_popularity = [], rec_albumArt = [] \<rparr>"

definition fiveCards :: "dnode list" where
  \<comment> \<open>five fragments, the third without a link\<close>
  "fiveCards =
    [card ''A'' [anchor ''https://open.spotify.com/track/id1''],
     card ''B'' [anchor ''https://open.spotify.com/track/id2''],
     card ''C'' [],
     card ''D'' [anchor ''https://open.spotify.com/track/id4''],
     card ''E'' [anchor ''https://open.spotify.com/track/id5'']]"

definition throwingCards :: "dnode list" where
  \<comment> \<open>three fragments, the second with an SVG link\<close>
  "throwingCards =
    [card ''A'' [anchor ''https://open.spotify.com/track/id1''],
     card ''X'' [svgAnchor ''https://open.spotify.com/track/idx''],
     card ''B'' [anchor ''https://open.spotify.com/track/id2'']]"

definition alwaysBlocked :: "nat \<Rightarrow> attempt" where
  \<comment> \<open>every attempt meets the block page\<close>
  "alwaysBlocked = (\<lambda>n. blockPage)"

fun captures :: "rx \<Rightarrow> bool" where
  \<comment> \<open>group 1 lies on every path through the pattern\<close>
  "captures (Grp r) = True"
| "captures (Seq a b) = (captures a \<or> captures b)"
| "captures r = False"

definition getField :: "string \<Rightarrow> track_data \<Rightarrow> jsstring" where
  \<comment> \<open>reading \<^verbatim>\<open>data[key]\<close> for the keys of the two tables\<close>
  "getField k d =
    (if k = ''title'' then title d
     else if k = ''artist'' then artist d
     else if k = ''album'' then album d
     else if k = ''key'' then key d
     else if k = ''camelot'' then camelot d
     else if k = ''bpm'' then bpm d
     else if k = ''duration'' then duration d
     else if k = ''releaseDate'' then releaseDate d
     else if k = ''popularity'' then popularity d
     else if k = ''energy'' then energy d
     else if k = ''danceability'' then danceability d
     else if k = ''happiness'' then happiness d
     else if k = ''acousticness'' then acousticness d
     else if k = ''instrumentalness'' then instrumentalness d
     else if k = ''liveness'' then liveness d
     else if k = ''speechiness'' then speechiness d
     else if k = ''loudness'' then loudness d
     else [])"

definition pageText :: "dnode \<Rightarrow> jsstring" where
  \<comment> \<open>\<^verbatim>\<open>document.body.textContent\<close> of a document that has a body\<close>
  "pageText doc = (case body doc of None \<Rightarrow> [] | Some b \<Rightarrow> textContent b)"

definition extractedValues :: "dnode \<Rightarrow> (jsstring \<times> jsstring \<times> jsstring) option" where
  \<comment> \<open>key, tempo and energy of the record the extractor returns, if it returns one\<close>
  "extractedValues doc =
     (case extractPage doc of Inr (Some d) \<Rightarrow> Some (key d, bpm d, energy d) | _ \<Rightarrow> None)"

definition earlierValues :: dnode where
  \<comment> \<open>the three strings of the mock page, after a line with other values\<close>
  "earlierValues = page [el ''h1'' [] [txt_node ''One More Time''],
     el ''div'' [] [txt_node ''Key: C Major BPM: 99 50 Energy''],
     el ''div'' [] [txt_node ''Key: F Minor''],
     el ''div'' [] [txt_node ''120 BPM''],
     el ''div'' [] [txt_node ''Energy: 75 Energy'']]"

definition orderPage :: dnode where
  \<comment> \<open>a page on which the labelled and the bare patterns find different values\<close>
  "orderPage = page [el ''h1'' [] [txt_node ''One More Time''],
     el ''div'' [] [txt_node '' A min Key: F Minor 120 BPM Tempo: 98'']]"

definition noChromium :: browser where
  \<comment> \<open>\<^verbatim>\<open>which chromium\<close> exits with an error\<close>
  "noChromium = (chromium (\<lambda>n. blockPage))
     \<lparr> whichChromium := Inl (js ''Command failed: which chromium'') \<rparr>"

definition launchFails :: browser where
  "launchFails = (chromium (\<lambda>n. blockPage))
     \<lparr> launch := Some (js ''Failed to launch the browser process!'') \<rparr>"

definition setupFails :: browser where
  \<comment> \<open>the browser launches and a page set-up call throws\<close>
  "setupFails = (chromium (\<lambda>n. blockPage)) \<lparr> pageSetup := Some (js ''Target closed'') \<rparr>"

section \<open>Properties of the URL builder\<close>

lemma isWord_range: "isWord c \<Longrightarrow> 0x30 \<le> c \<and> c \<le> 0x7A"
  unfolding isWord_def isDigit_def
  by unat_arith

lemma isSpace_range: "isSpace c \<Longrightarrow> c \<le> 0x20 \<or> 0xA0 \<le> c"
  unfolding isSpace_def
  by unat_arith

lemma word_not_space: "isWord c \<Longrightarrow> \<not> isSpace c"
proof
  assume "isWord c" "isSpace c"
  then have "0x30 \<le> c \<and> c \<le> 0x7A" "c \<le> 0x20 \<or> 0xA0 \<le> c"
    by (simp_all add: isWord_range isSpace_range)
  then show False by unat_arith
qed

lemma hyphen_not_space: "\<not> isSpace hyphen" by (simp add: isSpace_def hyphen_def)
lemma hyphen_not_word: "\<not> isWord hyphen" by (simp add: isWord_def isDigit_def hyphen_def)

lemma not_prefix_dropWhile: "P x \<Longrightarrow> \<not> prefix [x] (dropWhile P cs)"
  by (induction cs) auto

lemma rev_dropWhile_rev_prefix: "prefix (rev (dropWhile Q (rev ys))) ys"
proof -
  have "rev (takeWhile Q (rev ys) @ dropWhile Q (rev ys)) = ys" by simp
  then have "rev (dropWhile Q (rev ys)) @ rev (takeWhile Q (rev ys)) = ys"
    by (simp only: rev_append)
  then show ?thesis by (metis prefixI)
qed

lemma set_replaceRuns: "set (replaceRuns P r cs) \<subseteq> set r \<union> {c \<in> set cs. \<not> P c}"
proof (induction P r cs rule: replaceRuns.induct)
  case (1 P r)
  then show ?case by simp
next
  case (2 P r c cs)
  have "set (dropWhile P cs) \<subseteq> set cs"
    by (metis set_append sup_ge2 takeWhile_dropWhile_id)
  with 2 show ?case by auto
qed

lemma mem_dropWhile: "x \<in> set xs \<Longrightarrow> \<not> Q x \<Longrightarrow> x \<in> set (dropWhile Q xs)"
  by (induction xs) auto

lemma replaceRuns_keeps: "c \<in> set cs \<Longrightarrow> \<not> P c \<Longrightarrow> c \<in> set (replaceRuns P r cs)"
proof (induction P r cs rule: replaceRuns.induct)
  case (1 P r)
  then show ?case by simp
next
  case (2 P r d cs)
  then show ?case by (auto intro: mem_dropWhile)
qed

lemma replaceRuns_id: "\<forall>c \<in> set cs. \<not> P c \<Longrightarrow> replaceRuns P r cs = cs"
  by (induction cs) auto

lemma replaceRuns_not_prefix:
  "\<not> prefix [x] cs \<Longrightarrow> \<not> prefix [x] (replaceRuns (\<lambda>c. c = x) r cs)"
  by (cases cs) auto

lemma collapse_not_prefix:
  "\<not> prefix [hyphen] (replaceRuns (\<lambda>c. c = hyphen) [hyphen] (dropWhile (\<lambda>c. c = hyphen) cs))"
  by (rule replaceRuns_not_prefix, rule not_prefix_dropWhile) simp

lemma collapse_no_double:
  "\<not> sublist [hyphen, hyphen] (replaceRuns (\<lambda>c. c = hyphen) [hyphen] cs)"
proof (induction "\<lambda>c. c = hyphen" "[hyphen]" cs rule: replaceRuns.induct)
  case 1
  then show ?case by simp
next
  case (2 c cs)
  show ?case
  proof (cases "c = hyphen")
    case True
    with 2 have ih: "\<not> sublist [hyphen, hyphen]
        (replaceRuns (\<lambda>c. c = hyphen) [hyphen] (dropWhile (\<lambda>c. c = hyphen) cs))"
      by simp
    with True collapse_not_prefix [of cs] show ?thesis
      by (simp add: sublist_Cons_right)
  next
    case False
    with 2 show ?thesis by (simp add: sublist_Cons_right)
  qed
qed

lemma collapse_id:
  "\<not> sublist [hyphen, hyphen] cs \<Longrightarrow> replaceRuns (\<lambda>c. c = hyphen) [hyphen] cs = cs"
proof (induction cs)
  case Nil
  then show ?case by simp
next
  case (Cons c cs)
  then have nd: "\<not> sublist [hyphen, hyphen] cs" and np: "\<not> prefix [hyphen, hyphen] (c # cs)"
    by (simp_all add: sublist_Cons_right)
  show ?case
  proof (cases "c = hyphen")
    case True
    with np have "dropWhile (\<lambda>c. c = hyphen) cs = cs" by (cases cs) auto
    with True Cons.IH [OF nd] show ?thesis by simp
  next
    case False
    with Cons.IH [OF nd] show ?thesis by simp
  qed
qed

lemma trimHyphens_prefix: "\<not> prefix [hyphen] (trimHyphens cs)"
proof -
  have a: "\<not> prefix [hyphen] (dropWhile (\<lambda>c. c = hyphen) cs)"
    by (rule not_prefix_dropWhile) simp
  have b: "prefix (trimHyphens cs) (dropWhile (\<lambda>c. c = hyphen) cs)"
    unfolding trimHyphens_def by (rule rev_dropWhile_rev_prefix)
  show ?thesis
  proof
    assume "prefix [hyphen] (trimHyphens cs)"
    from this b have "prefix [hyphen] (dropWhile (\<lambda>c. c = hyphen) cs)"
      by (rule prefix_order.order_trans)
    with a show False ..
  qed
qed

lemma trimHyphens_suffix: "\<not> suffix [hyphen] (trimHyphens cs)"
proof -
  have "\<not> prefix [hyphen] (dropWhile (\<lambda>c. c = hyphen) (rev (dropWhile (\<lambda>c. c = hyphen) cs)))"
    by (rule not_prefix_dropWhile) simp
  then show ?thesis
    unfolding trimHyphens_def by (simp add: suffix_to_prefix)
qed

lemma trimHyphens_sublist: "sublist (trimHyphens cs) cs"
proof -
  have "prefix (trimHyphens cs) (dropWhile (\<lambda>c. c = hyphen) cs)"
    unfolding trimHyphens_def by (rule rev_dropWhile_rev_prefix)
  then have 1: "sublist (trimHyphens cs) (dropWhile (\<lambda>c. c = hyphen) cs)"
    by (rule prefix_imp_sublist)
  have "suffix (dropWhile (\<lambda>c. c = hyphen) cs) cs" by (rule suffix_dropWhile)
  then have 2: "sublist (dropWhile (\<lambda>c. c = hyphen) cs) cs" by (rule suffix_imp_sublist)
  from 1 2 show ?thesis by (rule sublist_order.order_trans)
qed

lemma trimHyphens_id:
  "\<not> prefix [hyphen] cs \<Longrightarrow> \<not> suffix [hyphen] cs \<Longrightarrow> trimHyphens cs = cs"
proof -
  assume p: "\<not> prefix [hyphen] cs" and s: "\<not> suffix [hyphen] cs"
  from p have 1: "dropWhile (\<lambda>c. c = hyphen) cs = cs" by (cases cs) auto
  from s have "\<not> prefix [hyphen] (rev cs)" by (simp add: suffix_to_prefix)
  then have 2: "dropWhile (\<lambda>c. c = hyphen) (rev cs) = rev cs" by (cases "rev cs") auto
  show ?thesis by (simp add: trimHyphens_def 1 2)
qed

lemma fmt_chars: "set (fmt x) \<subseteq> {c. isWord c \<or> c = hyphen}"
proof -
  let ?a = "stripOther x"
  let ?b = "replaceRuns isSpace [hyphen] ?a"
  let ?c = "replaceRuns (\<lambda>c. c = hyphen) [hyphen] ?b"
  have a: "set ?a \<subseteq> {c. isWord c \<or> isSpace c \<or> c = hyphen}"
    by (auto simp: stripOther_def)
  have "set ?b \<subseteq> set [hyphen] \<union> {c \<in> set ?a. \<not> isSpace c}" by (rule set_replaceRuns)
  with a have b: "set ?b \<subseteq> {c. isWord c \<or> c = hyphen}" by auto
  have "set ?c \<subseteq> set [hyphen] \<union> {c \<in> set ?b. \<not> c = hyphen}" by (rule set_replaceRuns)
  with b have c: "set ?c \<subseteq> {c. isWord c \<or> c = hyphen}" by auto
  have "set (trimHyphens ?c) \<subseteq> set ?c" by (rule set_mono_sublist) (rule trimHyphens_sublist)
  with c show ?thesis by (simp add: fmt_def)
qed

lemma fmt_no_double: "\<not> sublist [hyphen, hyphen] (fmt x)"
proof
  assume "sublist [hyphen, hyphen] (fmt x)"
  moreover have "sublist (fmt x) (replaceRuns (\<lambda>c. c = hyphen) [hyphen]
       (replaceRuns isSpace [hyphen] (stripOther x)))"
    unfolding fmt_def by (rule trimHyphens_sublist)
  ultimately have "sublist [hyphen, hyphen] (replaceRuns (\<lambda>c. c = hyphen) [hyphen]
       (replaceRuns isSpace [hyphen] (stripOther x)))"
    by (rule sublist_order.order_trans)
  then show False by (simp add: collapse_no_double)
qed

lemma fmt_clean_id:
  assumes chars: "set y \<subseteq> {c. isWord c \<or> c = hyphen}"
    and nd: "\<not> sublist [hyphen, hyphen] y"
    and np: "\<not> prefix [hyphen] y" and ns: "\<not> suffix [hyphen] y"
  shows "fmt y = y"
proof -
  have 1: "stripOther y = y" using chars by (auto simp: stripOther_def filter_id_conv)
  have "\<forall>c \<in> set y. \<not> isSpace c" using chars hyphen_not_space word_not_space by auto
  then have 2: "replaceRuns isSpace [hyphen] y = y" by (rule replaceRuns_id)
  have 3: "replaceRuns (\<lambda>c. c = hyphen) [hyphen] y = y" using nd by (rule collapse_id)
  have 4: "trimHyphens y = y" using np ns by (rule trimHyphens_id)
  show ?thesis by (simp add: fmt_def 1 2 3 4)
qed

lemma fmt_idem: "fmt (fmt x) = fmt x"
  by (rule fmt_clean_id)
     (simp_all add: fmt_chars fmt_no_double, simp_all add: fmt_def trimHyphens_prefix trimHyphens_suffix)

lemma fmt_keeps_word: "c \<in> set x \<Longrightarrow> isWord c \<Longrightarrow> c \<in> set (fmt x)"
proof -
  assume c: "c \<in> set x" and w: "isWord c"
  from w have ns: "\<not> isSpace c" and nh: "c \<noteq> hyphen"
    using word_not_space hyphen_not_word by auto
  from c w have "c \<in> set (stripOther x)" by (simp add: stripOther_def)
  then have "c \<in> set (replaceRuns isSpace [hyphen] (stripOther x))"
    using ns by (rule replaceRuns_keeps)
  then have "c \<in> set (replaceRuns (\<lambda>c. c = hyphen) [hyphen] (replaceRuns isSpace [hyphen] (stripOther x)))"
    using nh by (rule replaceRuns_keeps)
  then have "c \<in> set (dropWhile (\<lambda>c. c = hyphen) (replaceRuns (\<lambda>c. c = hyphen) [hyphen] (replaceRuns isSpace [hyphen] (stripOther x))))"
    using nh by (rule mem_dropWhile)
  then have "c \<in> set (dropWhile (\<lambda>c. c = hyphen) (rev (dropWhile (\<lambda>c. c = hyphen) (replaceRuns (\<lambda>c. c = hyphen) [hyphen] (replaceRuns isSpace [hyphen] (stripOther x))))))"
    using nh by (intro mem_dropWhile) simp_all
  then show ?thesis by (simp add: fmt_def trimHyphens_def)
qed

lemma fmt_no_word: "\<forall>c \<in> set x. \<not> isWord c \<Longrightarrow> fmt x = []"
proof -
  assume nw: "\<forall>c \<in> set x. \<not> isWord c"
  have "set (fmt x) \<subseteq> set x \<union> {hyphen}"
  proof -
    let ?a = "stripOther x"
    let ?b = "replaceRuns isSpace [hyphen] ?a"
    let ?c = "replaceRuns (\<lambda>c. c = hyphen) [hyphen] ?b"
    have a: "set ?a \<subseteq> set x" by (auto simp: stripOther_def)
    have "set ?b \<subseteq> set [hyphen] \<union> {c \<in> set ?a. \<not> isSpace c}" by (rule set_replaceRuns)
    with a have b: "set ?b \<subseteq> set x \<union> {hyphen}" by auto
    have "set ?c \<subseteq> set [hyphen] \<union> {c \<in> set ?b. \<not> c = hyphen}" by (rule set_replaceRuns)
    with b have c: "set ?c \<subseteq> set x \<union> {hyphen}" by auto
    have "set (trimHyphens ?c) \<subseteq> set ?c" by (rule set_mono_sublist) (rule trimHyphens_sublist)
    with c show ?thesis by (simp add: fmt_def)
  qed
  with nw hyphen_not_word fmt_chars [of x] have all: "set (fmt x) \<subseteq> {hyphen}" by auto
  show ?thesis
  proof (cases "fmt x")
    case Nil
    then show ?thesis .
  next
    case (Cons d ds)
    with all have "d = hyphen" by auto
    with Cons have "prefix [hyphen] (fmt x)" by simp
    then show ?thesis by (simp add: fmt_def trimHyphens_prefix)
  qed
qed

text \<open>
  C3. The slug function \<open>fmt\<close> is idempotent; its output never starts with a hyphen,
  never ends with one and never holds two hyphens in a row; and the slug of an input with
  at least one word character is not empty.
\<close>

theorem fmt_idempotent_clean:
  "fmt (fmt x) = fmt x
   \<and> \<not> prefix [hyphen] (fmt x) \<and> \<not> suffix [hyphen] (fmt x)
   \<and> \<not> sublist [hyphen, hyphen] (fmt x)
   \<and> ((\<exists>c \<in> set x. isWord c) \<longrightarrow> fmt x \<noteq> [])"
proof -
  have "fmt x \<noteq> []" if "\<exists>c \<in> set x. isWord c"
  proof -
    from that obtain c where "c \<in> set x" "isWord c" by blast
    then have "c \<in> set (fmt x)" by (rule fmt_keeps_word)
    then show ?thesis by auto
  qed
  moreover have "\<not> prefix [hyphen] (fmt x)" "\<not> suffix [hyphen] (fmt x)"
    by (simp_all add: fmt_def trimHyphens_prefix trimHyphens_suffix)
  ultimately show ?thesis
    using fmt_idem [of x] fmt_no_double [of x] by blast
qed

theorem fmt_idempotent_clean_witness:
  "(\<exists>c \<in> set (js ''  --Hello,  World! -- a_b --''). isWord c)
   \<and> fmt (js ''  --Hello,  World! -- a_b --'') = js ''Hello-World-a_b''
   \<and> fmt (js ''Hello-World-a_b'') = js ''Hello-World-a_b''
   \<and> fmt (js ''  --Hello,  World! -- a_b --'') \<noteq> []"
proof -
  have w: "\<exists>c \<in> set (js ''  --Hello,  World! -- a_b --''). isWord c"
    by (simp add: js_def isWord_def isDigit_def)
  have v: "fmt (js ''  --Hello,  World! -- a_b --'') = js ''Hello-World-a_b''"
    by (simp add: fmt_def js_def trimHyphens_def stripOther_def isWord_def isSpace_def
        isDigit_def hyphen_def)
  from fmt_idempotent_clean [of "js ''  --Hello,  World! -- a_b --''"] w v
  show ?thesis by simp
qed

text \<open>
  C10. When the song name has no word character and the artist name has one, the
  combined segment is a hyphen followed by the artist slug, so it starts with a hyphen;
  when the artist name has no word character, the segment ends with a hyphen.
\<close>

theorem slugSegment_edge_hyphens:
  "((\<forall>c \<in> set songName. \<not> isWord c) \<and> (\<exists>c \<in> set artistName. isWord c) \<longrightarrow>
      fmt songName = [] \<and> fmt artistName \<noteq> []
      \<and> slugSegment songName artistName = hyphen # fmt artistName
      \<and> prefix [hyphen] (slugSegment songName artistName))
   \<and> ((\<forall>c \<in> set artistName. \<not> isWord c) \<longrightarrow>
      fmt artistName = []
      \<and> slugSegment songName artistName = fmt songName @ [hyphen]
      \<and> suffix [hyphen] (slugSegment songName artistName))"
proof (intro conjI impI)
  assume a: "(\<forall>c \<in> set songName. \<not> isWord c) \<and> (\<exists>c \<in> set artistName. isWord c)"
  then show s: "fmt songName = []" by (simp add: fmt_no_word)
  from a obtain c where "c \<in> set artistName" "isWord c" by blast
  then have "c \<in> set (fmt artistName)" by (rule fmt_keeps_word)
  then show "fmt artistName \<noteq> []" by auto
  from s show "slugSegment songName artistName = hyphen # fmt artistName"
    by (simp add: slugSegment_def)
  from s show "prefix [hyphen] (slugSegment songName artistName)"
    by (simp add: slugSegment_def)
next
  assume a: "\<forall>c \<in> set artistName. \<not> isWord c"
  then show s: "fmt artistName = []" by (rule fmt_no_word)
  then show "slugSegment songName artistName = fmt songName @ [hyphen]"
    by (simp add: slugSegment_def)
  from s show "suffix [hyphen] (slugSegment songName artistName)"
    by (simp add: slugSegment_def suffix_def)
qed

theorem slugSegment_edge_hyphens_witness:
  "\<not> (\<exists>c \<in> set (js ''?!''). isWord c) \<and> (\<exists>c \<in> set (js ''Daft Punk''). isWord c)
   \<and> slugSegment (js ''?!'') (js ''Daft Punk'') = js ''-Daft-Punk''
   \<and> slugSegment (js ''Daft Punk'') (js ''?!'') = js ''Daft-Punk-''"
proof -
  have a: "\<forall>c \<in> set (js ''?!''). \<not> isWord c"
    by (simp add: js_def isWord_def isDigit_def)
  have b: "\<exists>c \<in> set (js ''Daft Punk''). isWord c"
    by (simp add: js_def isWord_def isDigit_def)
  have v: "fmt (js ''Daft Punk'') = js ''Daft-Punk''"
    by (simp add: fmt_def js_def trimHyphens_def stripOther_def isWord_def isSpace_def
        isDigit_def hyphen_def)
  from slugSegment_edge_hyphens [of "js ''?!''" "js ''Daft Punk''"] a b
  have "slugSegment (js ''?!'') (js ''Daft Punk'') = hyphen # fmt (js ''Daft Punk'')"
    by blast
  then have 1: "slugSegment (js ''?!'') (js ''Daft Punk'') = js ''-Daft-Punk''"
    by (simp add: v) (simp add: js_def hyphen_def)
  from slugSegment_edge_hyphens [of "js ''Daft Punk''" "js ''?!''"] a
  have "slugSegment (js ''Daft Punk'') (js ''?!'') = fmt (js ''Daft Punk'') @ [hyphen]"
    by blast
  then have 2: "slugSegment (js ''Daft Punk'') (js ''?!'') = js ''Daft-Punk-''"
    by (simp add: v) (simp add: js_def hyphen_def)
  from a b 1 2 show ?thesis by blast
qed

section \<open>Properties of the retry loop\<close>

lemma navigations_append: "navigations (xs @ ys) = navigations xs + navigations ys"
  by (induction xs rule: navigations.induct) simp_all

lemma screenshots_append: "screenshots (xs @ ys) = screenshots xs + screenshots ys"
  by (induction xs rule: screenshots.induct) simp_all

lemma runAttempt_outcome: "fst (runAttempt u a) = outcomeOf a"
  by (simp add: outcomeOf_def runAttempt_def split: option.splits sum.splits)

lemma runAttempt_navigations: "navigations (snd (runAttempt u a)) = 1"
  by (simp add: runAttempt_def split: option.splits sum.splits)

lemma detectsBlock_outcome: "detectsBlock a \<Longrightarrow> outcomeOf a = Blocked"
  by (auto simp: detectsBlock_def outcomeOf_def runAttempt_def blockSignature_def
      split: option.splits sum.splits)

lemma retryLoop_step:
  "retryLoop u att (Suc r) n tr =
     (case outcomeOf (att n) of
        Extracted d \<Rightarrow> (Some d, tr @ snd (runAttempt u (att n)))
      | Blocked \<Rightarrow> retryLoop u att r (Suc n) (tr @ snd (runAttempt u (att n)))
      | NoData \<Rightarrow> retryLoop u att r (Suc n)
          (tr @ snd (runAttempt u (att n)) @ [Pause 2500 1000])
      | Thrown e \<Rightarrow> retryLoop u att r (Suc n)
          (tr @ snd (runAttempt u (att n)) @ (if r > 0 then [Pause 4500 1500] else [])))"
proof -
  obtain out evs where r: "runAttempt u (att n) = (out, evs)"
    by (cases "runAttempt u (att n)")
  then have "outcomeOf (att n) = out"
    using runAttempt_outcome [of u "att n"] by simp
  with r show ?thesis by (simp split: outcome.splits)
qed

lemma retryLoop_bound:
  "navigations (snd (retryLoop u att r n tr)) \<le> navigations tr + r"
proof (induction r arbitrary: n tr)
  case 0
  then show ?case by simp
next
  case (Suc r)
  show ?case
  proof (cases "outcomeOf (att n)")
    case Blocked
    with Suc [of "Suc n" "tr @ snd (runAttempt u (att n))"] show ?thesis
      by (simp add: retryLoop_step navigations_append runAttempt_navigations del: retryLoop.simps(2))
  next
    case (Extracted d)
    then show ?thesis
      by (simp add: retryLoop_step navigations_append runAttempt_navigations del: retryLoop.simps(2))
  next
    case NoData
    with Suc [of "Suc n" "tr @ snd (runAttempt u (att n)) @ [Pause 2500 1000]"]
    show ?thesis
      by (simp add: retryLoop_step navigations_append runAttempt_navigations del: retryLoop.simps(2))
  next
    case (Thrown e)
    with Suc [of "Suc n" "tr @ snd (runAttempt u (att n))
        @ (if r > 0 then [Pause 4500 1500] else [])"]
    show ?thesis
      by (cases "0 < r")
        (simp_all add: retryLoop_step navigations_append runAttempt_navigations
          del: retryLoop.simps(2))
  qed
qed

lemma retryLoop_all_blocked:
  "(\<And>i. i < r \<Longrightarrow> detectsBlock (att (n + i))) \<Longrightarrow>
   fst (retryLoop u att r n tr) = None
   \<and> navigations (snd (retryLoop u att r n tr)) = navigations tr + r"
proof (induction r arbitrary: n tr)
  case 0
  then show ?case by simp
next
  case (Suc r)
  from Suc.prems [of 0] have b: "outcomeOf (att n) = Blocked"
    by (simp add: detectsBlock_outcome)
  have "\<And>i. i < r \<Longrightarrow> detectsBlock (att (Suc n + i))"
    using Suc.prems by force
  from Suc.IH [OF this, of "tr @ snd (runAttempt u (att n))"] b show ?case
    by (simp add: retryLoop_step navigations_append runAttempt_navigations del: retryLoop.simps(2))
qed

lemma retryLoop_first_record:
  "k < r \<Longrightarrow> (\<And>i. i < k \<Longrightarrow> \<not> yieldsRecord (att (n + i))) \<Longrightarrow>
   outcomeOf (att (n + k)) = Extracted d \<Longrightarrow>
   fst (retryLoop u att r n tr) = Some d
   \<and> navigations (snd (retryLoop u att r n tr)) = navigations tr + Suc k"
proof (induction r arbitrary: n k tr)
  case 0
  then show ?case by simp
next
  case (Suc r)
  show ?case
  proof (cases k)
    case 0
    with Suc.prems show ?thesis
      by (simp add: retryLoop_step navigations_append runAttempt_navigations del: retryLoop.simps(2))
  next
    case (Suc j)
    with Suc.prems have j: "j < r" by simp
    from Suc Suc.prems(2) [of 0] have no: "\<not> yieldsRecord (att n)" by simp
    have rest: "\<And>i. i < j \<Longrightarrow> \<not> yieldsRecord (att (Suc n + i))"
      using Suc.prems(2) Suc by force
    have last: "outcomeOf (att (Suc n + j)) = Extracted d"
      using Suc.prems(3) Suc by simp
    note ih = Suc.IH [OF j rest last]
    show ?thesis
    proof (cases "outcomeOf (att n)")
      case Blocked
      with ih [of "tr @ snd (runAttempt u (att n))"] Suc show ?thesis
        by (simp add: retryLoop_step navigations_append runAttempt_navigations del: retryLoop.simps(2))
    next
      case (Extracted d')
      with no show ?thesis by (simp add: yieldsRecord_def)
    next
      case NoData
      with ih [of "tr @ snd (runAttempt u (att n)) @ [Pause 2500 1000]"] Suc
      show ?thesis
        by (simp add: retryLoop_step navigations_append runAttempt_navigations del: retryLoop.simps(2))
    next
      case (Thrown e)
      with ih [of "tr @ snd (runAttempt u (att n))
          @ (if r > 0 then [Pause 4500 1500] else [])"] Suc
      show ?thesis
        by (simp add: retryLoop_step navigations_append runAttempt_navigations del: retryLoop.simps(2))
    qed
  qed
qed

lemma extractPage_mockPage: "extractPage mockPage = Inr (Some mockData)"
  by code_simp

lemma detectsBlock_blockPage: "detectsBlock blockPage"
  by (simp add: detectsBlock_def blockPage_def serving_def blockSignature_def strIncludes_def
      js_def sublist_Cons_right)

lemma mockContent_clear: "\<not> blockSignature mockContent"
  by (simp add: blockSignature_def mockContent_def strIncludes_def js_def sublist_Cons_right)

lemma outcomeOf_mock: "outcomeOf (serving mockContent mockPage) = Extracted mockData"
  by (simp add: outcomeOf_def runAttempt_def serving_def extractPage_mockPage
      mockContent_clear [unfolded blockSignature_def])

lemma tryBlock_loop:
  "pageSetup b = None \<Longrightarrow>
   tryBlock a s t b =
     (let r = retryLoop (buildUrl a s t) (attempts b) 3 0 []
      in (\<lparr> success = (fst r \<noteq> None), url = Some (buildUrl a s t),
             data = Some (case fst r of None \<Rightarrow> EmptyObject | Some d \<Rightarrow> Data d),
             error = (if fst r = None then Some (js ''Failed to extract data'') else None),
             debugImagePath = js ''debug.png'' \<rparr>, snd r))"
  by (simp add: tryBlock_def Let_def split_beta del: retryLoop.simps)

text \<open>
  C2. The retry loop has a budget of exactly three attempts. When each of the three
  attempts detects a block signature, three navigations are made and the result is the
  failure "Failed to extract data". When the first record comes on attempt \<open>k + 1\<close> with
  \<open>k < 3\<close>, the loop stops there: \<open>k + 1\<close> navigations, and that record is returned. In
  no case are there more than three navigations.
\<close>

theorem retry_budget_three:
  "pageSetup b = None \<Longrightarrow>
   ((\<forall>n < 3. detectsBlock (attempts b n)) \<longrightarrow>
      \<not> success (fst (tryBlock a s t b))
      \<and> data (fst (tryBlock a s t b)) = Some EmptyObject
      \<and> error (fst (tryBlock a s t b)) = Some (js ''Failed to extract data'')
      \<and> navigations (snd (tryBlock a s t b)) = 3)
   \<and> (k < 3 \<and> (\<forall>i < k. \<not> yieldsRecord (attempts b i))
        \<and> outcomeOf (attempts b k) = Extracted d \<longrightarrow>
      success (fst (tryBlock a s t b))
      \<and> data (fst (tryBlock a s t b)) = Some (Data d)
      \<and> navigations (snd (tryBlock a s t b)) = Suc k)
   \<and> navigations (snd (tryBlock a s t b)) \<le> 3"
proof (intro conjI impI)
  assume p: "pageSetup b = None"
  let ?r = "retryLoop (buildUrl a s t) (attempts b) 3 0 []"
  {
    assume "\<forall>n < 3. detectsBlock (attempts b n)"
    then have "\<And>i. i < 3 \<Longrightarrow> detectsBlock (attempts b (0 + i))" by simp
    from retryLoop_all_blocked [of 3 "attempts b" 0 "buildUrl a s t" "[]", OF this]
    have r: "fst ?r = None" "navigations (snd ?r) = 3" by simp_all
    from r show "\<not> success (fst (tryBlock a s t b))"
      by (simp add: tryBlock_loop [OF p] Let_def del: retryLoop.simps)
    from r show "data (fst (tryBlock a s t b)) = Some EmptyObject"
      by (simp add: tryBlock_loop [OF p] Let_def del: retryLoop.simps)
    from r show "error (fst (tryBlock a s t b)) = Some (js ''Failed to extract data'')"
      by (simp add: tryBlock_loop [OF p] Let_def del: retryLoop.simps)
    from r show "navigations (snd (tryBlock a s t b)) = 3"
      by (simp add: tryBlock_loop [OF p] Let_def del: retryLoop.simps)
  }
  {
    assume h: "k < 3 \<and> (\<forall>i < k. \<not> yieldsRecord (attempts b i))
        \<and> outcomeOf (attempts b k) = Extracted d"
    then have 1: "k < 3" and 2: "\<And>i. i < k \<Longrightarrow> \<not> yieldsRecord (attempts b (0 + i))"
      and 3: "outcomeOf (attempts b (0 + k)) = Extracted d" by simp_all
    from retryLoop_first_record [of k 3 "attempts b" 0 d "buildUrl a s t" "[]", OF 1 2 3]
    have r: "fst ?r = Some d" "navigations (snd ?r) = Suc k" by simp_all
    from r show "success (fst (tryBlock a s t b))"
      by (simp add: tryBlock_loop [OF p] Let_def del: retryLoop.simps)
    from r show "data (fst (tryBlock a s t b)) = Some (Data d)"
      by (simp add: tryBlock_loop [OF p] Let_def del: retryLoop.simps)
    from r show "navigations (snd (tryBlock a s t b)) = Suc k"
      by (simp add: tryBlock_loop [OF p] Let_def del: retryLoop.simps)
  }
  from retryLoop_bound [of "buildUrl a s t" "attempts b" 3 0 "[]"]
  show "navigations (snd (tryBlock a s t b)) \<le> 3"
    by (simp add: tryBlock_loop [OF p] Let_def del: retryLoop.simps)
qed

theorem retry_budget_three_witness:
  "navigations (snd (tryBlock (js ''Daft Punk'') (js ''One More Time'') (js ''0TyaAdfWWdTCBtCw3HrDwO'')
       (chromium (\<lambda>n. blockPage)))) = 3
   \<and> \<not> success (fst (tryBlock (js ''Daft Punk'') (js ''One More Time'') (js ''0TyaAdfWWdTCBtCw3HrDwO'')
       (chromium (\<lambda>n. blockPage))))
   \<and> navigations (snd (tryBlock (js ''Daft Punk'') (js ''One More Time'') (js ''0TyaAdfWWdTCBtCw3HrDwO'')
       (chromium secondTry))) = 2
   \<and> data (fst (tryBlock (js ''Daft Punk'') (js ''One More Time'') (js ''0TyaAdfWWdTCBtCw3HrDwO'')
       (chromium secondTry))) = Some (Data mockData)"
proof -
  have p: "pageSetup (chromium f) = None" for f by (simp add: chromium_def)
  have att: "attempts (chromium f) = f" for f by (simp add: chromium_def)
  have b: "\<forall>n < 3. detectsBlock (attempts (chromium (\<lambda>n. blockPage)) n)"
    by (simp add: att detectsBlock_blockPage)
  have "\<not> yieldsRecord blockPage"
    by (simp add: yieldsRecord_def detectsBlock_outcome [OF detectsBlock_blockPage])
  then have s: "(1::nat) < 3 \<and> (\<forall>i < 1. \<not> yieldsRecord (attempts (chromium secondTry) i))
      \<and> outcomeOf (attempts (chromium secondTry) 1) = Extracted mockData"
    by (simp add: att secondTry_def outcomeOf_mock)
  from retry_budget_three [OF p, of "\<lambda>n. blockPage" _ _ _ 0 mockData] b
    retry_budget_three [OF p, of secondTry _ _ _ 1 mockData] s
  show ?thesis by (simp del: One_nat_def)
qed

section \<open>Properties of the field extractor\<close>

lemma metaPass_results:
  "snd (metaPass doc rows d) = map (\<lambda>(k, selectors). getText doc selectors \<noteq> []) rows"
  by (induction doc rows d rule: metaPass.induct) (simp_all add: split_beta Let_def)

lemma metaPass_fields:
  "fst (metaPass doc metaSelectors initialData) =
     initialData\<lparr>title := getText doc (snd (metaSelectors ! 0)),
       artist := getText doc (snd (metaSelectors ! 1)),
       album := getText doc (snd (metaSelectors ! 2))\<rparr>"
  by (simp add: metaSelectors_def setField_def Let_def split_beta)

lemma setField_keeps:
  "k \<noteq> ''title'' \<Longrightarrow> title (setField k v d) = title d"
  "k \<noteq> ''artist'' \<Longrightarrow> artist (setField k v d) = artist d"
  "k \<noteq> ''album'' \<Longrightarrow> album (setField k v d) = album d"
  "albumArt (setField k v d) = albumArt d"
  by (simp_all add: setField_def)

lemma patternPass_keeps:
  "patternPass doc rows d = Inr d' \<Longrightarrow>
   ''title'' \<notin> fst ` set rows \<Longrightarrow> ''artist'' \<notin> fst ` set rows \<Longrightarrow> ''album'' \<notin> fst ` set rows \<Longrightarrow>
   title d' = title d \<and> artist d' = artist d \<and> album d' = album d \<and> albumArt d' = albumArt d"
proof (induction rows arbitrary: d)
  case Nil
  then show ?case by simp
next
  case (Cons row rows)
  obtain k ps where row: "row = (k, ps)" by (cases row)
  with Cons.prems have k: "k \<noteq> ''title''" "k \<noteq> ''artist''" "k \<noteq> ''album''" by auto
  from Cons.prems have rest: "''title'' \<notin> fst ` set rows" "''artist'' \<notin> fst ` set rows"
    "''album'' \<notin> fst ` set rows" by auto
  show ?case
  proof (cases "firstValue doc ps")
    case (Inl e)
    with Cons.prems(1) row show ?thesis by simp
  next
    case (Inr v)
    show ?thesis
    proof (cases v)
      case None
      with Inr Cons.prems(1) row have "patternPass doc rows d = Inr d'" by simp
      from Cons.IH [OF this rest] show ?thesis .
    next
      case (Some x)
      with Inr Cons.prems(1) row have "patternPass doc rows (setField k x d) = Inr d'" by simp
      from Cons.IH [OF this rest] k show ?thesis by (simp add: setField_keeps)
    qed
  qed
qed

lemma patternTable_keys:
  "''title'' \<notin> fst ` set patternTable" "''artist'' \<notin> fst ` set patternTable"
  "''album'' \<notin> fst ` set patternTable"
  by (simp_all add: patternTable_def)

lemma extractPage_gate:
  "extractPage doc = Inr None \<longleftrightarrow>
     getText doc (snd (metaSelectors ! 0)) = [] \<and> getText doc (snd (metaSelectors ! 1)) = []
     \<and> getText doc (snd (metaSelectors ! 2)) = []"
proof -
  have rs: "snd (metaPass doc metaSelectors initialData) =
      [getText doc (snd (metaSelectors ! 0)) \<noteq> [], getText doc (snd (metaSelectors ! 1)) \<noteq> [],
       getText doc (snd (metaSelectors ! 2)) \<noteq> []]"
    by (simp add: metaPass_results) (simp add: metaSelectors_def)
  show ?thesis
    by (auto simp: extractPage_def split_beta rs Let_def split: sum.splits)
qed

lemma extractPage_Some:
  assumes "extractPage doc = Inr (Some d)"
  shows "title d = getText doc (snd (metaSelectors ! 0))"
    and "artist d = getText doc (snd (metaSelectors ! 1))"
    and "album d = getText doc (snd (metaSelectors ! 2))"
    and "albumArt d = (case getElement doc [albumArtSelector] of None \<Rightarrow> [] | Some img \<Rightarrow> src img)"
    and "recommendations d = parseRecommendations (recommendedTracks doc) []"
    and "title d \<noteq> [] \<or> artist d \<noteq> [] \<or> album d \<noteq> []"
proof -
  let ?d0 = "(fst (metaPass doc metaSelectors initialData))\<lparr>albumArt :=
      (case getElement doc [albumArtSelector] of None \<Rightarrow> [] | Some img \<Rightarrow> src img)\<rparr>"
  from assms have ng: "extractPage doc \<noteq> Inr None" by simp
  from assms obtain d1 b where pp: "patternPass doc patternTable ?d0 = Inr d1"
    and d: "d = d1\<lparr>explicit := b, recommendations := parseRecommendations (recommendedTracks doc) []\<rparr>"
    by (auto simp: extractPage_def split_beta Let_def split: sum.splits if_splits)
  from patternPass_keeps [OF pp patternTable_keys]
  have k: "title d1 = title ?d0" "artist d1 = artist ?d0" "album d1 = album ?d0"
    "albumArt d1 = albumArt ?d0" by simp_all
  from k d show t: "title d = getText doc (snd (metaSelectors ! 0))"
    and a: "artist d = getText doc (snd (metaSelectors ! 1))"
    and al: "album d = getText doc (snd (metaSelectors ! 2))"
    by (simp_all add: metaPass_fields)
  from k d show "albumArt d = (case getElement doc [albumArtSelector] of None \<Rightarrow> [] | Some img \<Rightarrow> src img)"
    by simp
  from d show "recommendations d = parseRecommendations (recommendedTracks doc) []" by simp
  from ng t a al show "title d \<noteq> [] \<or> artist d \<noteq> [] \<or> album d \<noteq> []"
    by (simp add: extractPage_gate)
qed

text \<open>
  C4. When the structural pass finds no text for any of title, artist and album, the
  extractor returns \<^verbatim>\<open>null\<close>, whatever the page text holds for the pattern pass.
\<close>

theorem gate_returns_null:
  "(\<forall>(k, selectors) \<in> set metaSelectors. getText doc selectors = []) \<Longrightarrow>
   extractPage doc = Inr None"
  by (simp add: extractPage_gate) (simp add: metaSelectors_def)

theorem gate_returns_null_witness:
  "extractPage keysOnly = Inr None
   \<and> firstValue keysOnly (snd (patternTable ! 0)) = Inr (Some (js ''F Minor''))"
proof -
  have "\<forall>(k, selectors) \<in> set metaSelectors. getText keysOnly selectors = []"
    by code_simp
  from gate_returns_null [OF this]
  have 1: "extractPage keysOnly = Inr None" .
  have 2: "firstValue keysOnly (snd (patternTable ! 0)) = Inr (Some (js ''F Minor''))"
    by code_simp
  from 1 2 show ?thesis by simp
qed

lemma retryLoop_Some:
  "fst (retryLoop u att r n tr) = Some d \<Longrightarrow> \<exists>i. outcomeOf (att i) = Extracted d"
proof (induction r arbitrary: n tr)
  case 0
  then show ?case by simp
next
  case (Suc r)
  show ?case
  proof (cases "outcomeOf (att n)")
    case Blocked
    with Suc.prems Suc.IH [of "Suc n" "tr @ snd (runAttempt u (att n))"] show ?thesis
      by (simp add: retryLoop_step del: retryLoop.simps(2))
  next
    case (Extracted d')
    with Suc.prems have "d' = d" by (simp add: retryLoop_step del: retryLoop.simps(2))
    with Extracted show ?thesis by blast
  next
    case NoData
    with Suc.prems Suc.IH [of "Suc n" "tr @ snd (runAttempt u (att n)) @ [Pause 2500 1000]"]
    show ?thesis by (simp add: retryLoop_step del: retryLoop.simps(2))
  next
    case (Thrown e)
    with Suc.prems Suc.IH [of "Suc n" "tr @ snd (runAttempt u (att n))
        @ (if r > 0 then [Pause 4500 1500] else [])"]
    show ?thesis by (simp add: retryLoop_step del: retryLoop.simps(2))
  qed
qed

lemma outcomeOf_Extracted:
  "outcomeOf a = Extracted d \<Longrightarrow> \<exists>doc. document a = Inr doc \<and> extractPage doc = Inr (Some d)"
  by (auto simp: outcomeOf_def runAttempt_def split: option.splits sum.splits if_splits)

lemma scrape_result_cases:
  assumes "fst (scrapeTunebatData a s t b) = Inr r"
  shows "r = fst (tryBlock a s t b)"
  using assms
  by (auto simp: scrapeTunebatData_def split_beta Let_def split: sum.splits option.splits)

text \<open>
  C9. A result with \<open>success\<close> carries a record in which title, artist or album is a
  non-empty string and whose recommendations are the list the parser built (empty when
  the page has no fragment), and no error. A result without
  \<open>success\<close> that comes after the loop has run carries the empty record and the error
  "Failed to extract data".
\<close>

theorem success_has_anchor:
  "fst (scrapeTunebatData a s t b) = Inr r \<Longrightarrow>
   (success r \<longrightarrow>
      (\<exists>d. data r = Some (Data d) \<and> (title d \<noteq> [] \<or> artist d \<noteq> [] \<or> album d \<noteq> [])
         \<and> (\<exists>doc. recommendations d = parseRecommendations (recommendedTracks doc) []))
      \<and> error r = None)
   \<and> (\<not> success r \<and> pageSetup b = None \<longrightarrow>
      data r = Some EmptyObject \<and> error r = Some (js ''Failed to extract data''))"
proof -
  assume "fst (scrapeTunebatData a s t b) = Inr r"
  then have r: "r = fst (tryBlock a s t b)" by (rule scrape_result_cases)
  show ?thesis
  proof (cases "pageSetup b")
    case (Some e)
    with r show ?thesis by (simp add: tryBlock_def)
  next
    case None
    let ?l = "retryLoop (buildUrl a s t) (attempts b) 3 0 []"
    show ?thesis
    proof (cases "fst ?l")
      case n: None
      with r None show ?thesis
        by (simp add: tryBlock_loop Let_def del: retryLoop.simps)
    next
      case (Some d)
      from retryLoop_Some [OF Some] obtain i where "outcomeOf (attempts b i) = Extracted d" ..
      then obtain doc where e: "extractPage doc = Inr (Some d)"
        using outcomeOf_Extracted by blast
      then have "title d \<noteq> [] \<or> artist d \<noteq> [] \<or> album d \<noteq> []"
        by (rule extractPage_Some(6))
      moreover from e have "\<exists>doc. recommendations d = parseRecommendations (recommendedTracks doc) []"
        using extractPage_Some(5) by blast
      ultimately show ?thesis using r None Some
        by (simp add: tryBlock_loop Let_def del: retryLoop.simps)
    qed
  qed
qed

lemma scrape_secondTry:
  "fst (scrapeTunebatData a s t (chromium secondTry)) =
     Inr \<lparr> success = True, url = Some (buildUrl a s t), data = Some (Data mockData),
       error = None, debugImagePath = js ''debug.png'' \<rparr>"
proof -
  have 1: "outcomeOf (secondTry 0) = Blocked"
    by (simp add: secondTry_def detectsBlock_outcome [OF detectsBlock_blockPage])
  have 2: "outcomeOf (secondTry (Suc 0)) = Extracted mockData"
    by (simp add: secondTry_def outcomeOf_mock)
  have "fst (retryLoop u secondTry (Suc (Suc (Suc 0))) 0 []) = Some mockData" for u
    by (simp add: retryLoop_step 1 2 del: retryLoop.simps(2))
  then have "fst (retryLoop u secondTry 3 0 []) = Some mockData" for u
    by (simp add: numeral_3_eq_3)
  then show ?thesis
    by (simp add: scrapeTunebatData_def chromium_def tryBlock_def split_beta Let_def
        del: retryLoop.simps)
qed

lemma scrape_blocked:
  "fst (scrapeTunebatData a s t (chromium (\<lambda>n. blockPage))) =
     Inr \<lparr> success = False, url = Some (buildUrl a s t), data = Some EmptyObject,
       error = Some (js ''Failed to extract data''), debugImagePath = js ''debug.png'' \<rparr>"
proof -
  have 1: "outcomeOf blockPage = Blocked"
    by (simp add: detectsBlock_outcome [OF detectsBlock_blockPage])
  have "fst (retryLoop u (\<lambda>n. blockPage) (Suc (Suc (Suc 0))) 0 []) = None" for u
    by (simp add: retryLoop_step 1 del: retryLoop.simps(2))
  then have "fst (retryLoop u (\<lambda>n. blockPage) 3 0 []) = None" for u
    by (simp add: numeral_3_eq_3)
  then show ?thesis
    by (simp add: scrapeTunebatData_def chromium_def tryBlock_def split_beta Let_def
        del: retryLoop.simps)
qed

theorem success_has_anchor_witness:
  "fst (scrapeTunebatData (js ''Daft Punk'') (js ''One More Time'') (js ''0TyaAdfWWdTCBtCw3HrDwO'')
      (chromium secondTry)) =
     Inr \<lparr> success = True,
       url = Some (buildUrl (js ''Daft Punk'') (js ''One More Time'') (js ''0TyaAdfWWdTCBtCw3HrDwO'')),
       data = Some (Data mockData), error = None, debugImagePath = js ''debug.png'' \<rparr>
   \<and> title mockData = js ''One More Time''
   \<and> fst (scrapeTunebatData (js ''Daft Punk'') (js ''One More Time'') (js ''0TyaAdfWWdTCBtCw3HrDwO'')
      (chromium (\<lambda>n. blockPage))) =
     Inr \<lparr> success = False,
       url = Some (buildUrl (js ''Daft Punk'') (js ''One More Time'') (js ''0TyaAdfWWdTCBtCw3HrDwO'')),
       data = Some EmptyObject, error = Some (js ''Failed to extract data''),
       debugImagePath = js ''debug.png'' \<rparr>"
proof -
  note ok = scrape_secondTry [of "js ''Daft Punk''" "js ''One More Time''" "js ''0TyaAdfWWdTCBtCw3HrDwO''"]
  note ko = scrape_blocked [of "js ''Daft Punk''" "js ''One More Time''" "js ''0TyaAdfWWdTCBtCw3HrDwO''"]
  have t: "title mockData = js ''One More Time''" by (simp add: mockData_def initialData_def)
  from success_has_anchor [OF ok] success_has_anchor [OF ko] ok ko t
  show ?thesis by simp
qed

lemma matches_albumArtSelector: "matches e albumArtSelector = isAlbumImage e"
  by (cases e)
    (auto simp: matches_def albumArtSelector_def isAlbumImage_def strIncludes_def js_def
      split: option.splits)

lemma getElement_albumArt:
  "getElement doc [albumArtSelector] = find isAlbumImage (elements doc)"
  by (simp add: querySelector_def matches_albumArtSelector split: option.splits)

text \<open>
  C7, as amended. The album art of an extracted record is the \<^verbatim>\<open>src\<close> of the first
  image, in tree order, whose \<^verbatim>\<open>alt\<close> contains "album" or "Album" or whose \<^verbatim>\<open>src\<close>
  attribute contains "album", the comparison being exact in case; it is the empty
  string when there is no such image.
\<close>

theorem albumArt_case_sensitive:
  "extractPage doc = Inr (Some d) \<Longrightarrow>
   albumArt d = (case find isAlbumImage (elements doc) of None \<Rightarrow> [] | Some img \<Rightarrow> src img)"
proof -
  assume "extractPage doc = Inr (Some d)"
  from extractPage_Some(4) [OF this] show ?thesis
    by (simp only: getElement_albumArt)
qed

lemma extractPage_albumPage:
  "extractPage albumPage = Inr (Some (initialData\<lparr>title := js ''One More Time'',
     albumArt := js ''https://cdn.example/a.jpg''\<rparr>))"
  by code_simp

theorem albumArt_case_sensitive_witness:
  "extractPage albumPage = Inr (Some (initialData\<lparr>title := js ''One More Time'',
     albumArt := js ''https://cdn.example/a.jpg''\<rparr>))
   \<and> find isAlbumImage (elements albumPage)
       = Some (image ''Album cover'' ''https://cdn.example/a.jpg'')"
proof -
  have "find isAlbumImage (elements albumPage)
      = Some (image ''Album cover'' ''https://cdn.example/a.jpg'')"
    by code_simp
  with albumArt_case_sensitive [OF extractPage_albumPage] extractPage_albumPage
  show ?thesis by simp
qed

text \<open>
  The claim as stated fails: an image whose \<^verbatim>\<open>alt\<close> is "ALBUM cover" is the one the
  case-insensitive reading selects, and the extractor returns the empty string.
\<close>

theorem albumArt_upper_case_counterexample:
  "albumArtSpec upperAlbumPage = js ''https://cdn.example/a.jpg''
   \<and> extractedAlbumArt upperAlbumPage = Some []"
proof -
  have 1: "albumArtSpec upperAlbumPage = js ''https://cdn.example/a.jpg''"
    by code_simp
  have 2: "extractedAlbumArt upperAlbumPage = Some []"
    by code_simp
  from 1 2 show ?thesis by simp
qed

section \<open>Properties of the pattern pass\<close>

lemma firstValue_first_match:
  "(\<forall>q \<in> set ps. findText doc q = Inr []) \<Longrightarrow> findText doc p = Inr v \<Longrightarrow> v \<noteq> [] \<Longrightarrow>
   firstValue doc (ps @ p # qs) = Inr (Some v)"
  by (induction ps) simp_all

lemma upper_range:
  assumes "0x61 \<le> c" "c \<le> (0x7A :: code_unit)"
  shows "0x41 \<le> c - 0x20 \<and> c - 0x20 \<le> 0x5A"
proof -
  from assms have u: "97 \<le> unat c" "unat c \<le> 122" by (simp_all add: word_le_nat_alt)
  have "(0x20 :: code_unit) \<le> c" using u by (simp add: word_le_nat_alt)
  then have "unat (c - 0x20) = unat c - 32" by (simp add: unat_sub)
  with u show ?thesis by (simp add: word_le_nat_alt) arith
qed

lemma lower_range:
  assumes "0x41 \<le> c" "c \<le> (0x5A :: code_unit)"
  shows "0x61 \<le> c + 0x20 \<and> c + 0x20 \<le> 0x7A"
proof -
  from assms have u: "65 \<le> unat c" "unat c \<le> 90" by (simp_all add: word_le_nat_alt)
  then have "unat (c + 0x20) = unat c + 32" by (simp add: unat_word_ariths)
  with u show ?thesis by (simp add: word_le_nat_alt)
qed

lemma clsMatch_digit: "clsMatch ic [(0x30, 0x39)] c = isDigit c"
proof -
  have "\<not> (0x30 \<le> upper c \<and> upper c \<le> 0x39)" if "\<not> isDigit c"
    using that upper_range [of c] unfolding upper_def isDigit_def
    by (auto; unat_arith)
  moreover have "\<not> (0x30 \<le> lower c \<and> lower c \<le> 0x39)" if "\<not> isDigit c"
    using that lower_range [of c] unfolding lower_def isDigit_def
    by (auto; unat_arith)
  ultimately show ?thesis
    by (auto simp: clsMatch_def inRanges_def isDigit_def)
qed

lemma clsMatch_single_lower: "clsMatch ic [(p, p)] c \<Longrightarrow> lower c = lower p"
proof -
  assume "clsMatch ic [(p, p)] c"
  then consider "c = p" | "upper c = p" | "lower c = p"
    by (auto simp: clsMatch_def inRanges_def)
  then show ?thesis
  proof cases
    case 1
    then show ?thesis by simp
  next
    case 2
    show ?thesis
    proof (cases "0x61 \<le> c \<and> c \<le> 0x7A")
      case True
      with 2 have p: "p = c - 0x20" by (simp add: upper_def)
      from True upper_range [of c] have "0x41 \<le> p \<and> p \<le> 0x5A" by (simp add: p)
      then have "lower p = p + 0x20" by (simp add: lower_def)
      moreover from True have "lower c = c" unfolding lower_def by (auto; unat_arith)
      ultimately show ?thesis by (simp add: p)
    next
      case False
      with 2 show ?thesis by (simp add: upper_def)
    qed
  next
    case 3
    show ?thesis
    proof (cases "0x41 \<le> c \<and> c \<le> 0x5A")
      case True
      with 3 have p: "p = c + 0x20" by (simp add: lower_def)
      from True lower_range [of c] have "0x61 \<le> p \<and> p \<le> 0x7A" by (simp add: p)
      then have "lower p = p" unfolding lower_def by (auto; unat_arith)
      with 3 show ?thesis by simp
    next
      case False
      with 3 show ?thesis by (simp add: lower_def)
    qed
  qed
qed

lemma rmatch_Chr_Seq:
  "rmatch ic (Seq (Chr p) r) (s, cap) =
     (case s of [] \<Rightarrow> [] | c # cs \<Rightarrow> if clsMatch ic [(p, p)] c then rmatch ic r (cs, cap) else [])"
  by (simp split: list.splits)

lemma rmatch_lit:
  "rmatch ic (lit l) (s, cap) \<noteq> [] \<Longrightarrow>
   rmatch ic (lit l) (s, cap) = [(drop (length l) s, cap)] \<and> prefix (map lower (js l)) (map lower s)"
proof (induction l arbitrary: s)
  case Nil
  then show ?case by (simp add: lit_def js_def)
next
  case (Cons x l)
  have unf: "lit (x # l) = Seq (Chr (of_char x)) (lit l)" by (simp add: lit_def)
  from Cons.prems obtain c cs where s: "s = c # cs" and m: "clsMatch ic [(of_char x, of_char x)] c"
    and ne: "rmatch ic (lit l) (cs, cap) \<noteq> []"
    by (auto simp: unf rmatch_Chr_Seq split: list.splits if_splits)
  from Cons.IH [OF ne] m s show ?case
    by (simp add: unf js_def clsMatch_single_lower del: rmatch.simps) (simp add: m)
qed

lemma labelled_needs:
  "rmatch ic (labelled l r) (s, cap) \<noteq> [] \<Longrightarrow> prefix (map lower (js l) @ [0x3A]) (map lower s)"
proof -
  assume ne: "rmatch ic (labelled l r) (s, cap) \<noteq> []"
  have unf: "labelled l r = Seq (lit l) (Seq (Chr 0x3A) (Seq (Star space) (Seq (Grp r) Eps)))"
    by (simp add: labelled_def seqs_def)
  from ne have l: "rmatch ic (lit l) (s, cap) \<noteq> []"
    by (auto simp: unf)
  from rmatch_lit [OF l] have r1: "rmatch ic (lit l) (s, cap) = [(drop (length l) s, cap)]"
    and p: "prefix (map lower (js l)) (map lower s)" by simp_all
  from ne r1 have "rmatch ic (Seq (Chr 0x3A) (Seq (Star space) (Seq (Grp r) Eps)))
      (drop (length l) s, cap) \<noteq> []"
    by (simp add: unf del: rmatch.simps(2) rmatch.simps(6,8))
  then obtain c cs where d: "drop (length l) s = c # cs" and m: "clsMatch ic [(0x3A, 0x3A)] c"
    by (cases "drop (length l) s") (auto simp: rmatch_Chr_Seq simp del: rmatch.simps split: if_splits)
  from clsMatch_single_lower [OF m] have lc: "lower c = 0x3A" by (simp add: lower_def)
  from p have ll: "length l \<le> length s" by (auto simp: prefix_def js_def dest: arg_cong [where f = length])
  from p ll have t: "take (length l) (map lower s) = map lower (js l)"
    by (auto simp: prefix_def js_def)
  have "map lower s = take (length l) (map lower s) @ map lower (drop (length l) s)"
    by (simp add: drop_map [symmetric])
  with t d lc have "map lower s = (map lower (js l) @ [0x3A]) @ map lower cs" by simp
  then show ?thesis by (metis prefixI)
qed

lemma rsearch_leftmost:
  "(\<And>p2. p2 \<noteq> [] \<Longrightarrow> suffix p2 pre \<Longrightarrow> rmatch ic r (p2 @ rest, None) = []) \<Longrightarrow>
   rmatch ic r (rest, None) = st # sts \<Longrightarrow>
   rsearch (r, ic) (pre @ rest) = Some (snd st)"
proof (induction pre)
  case Nil
  then show ?case by (cases rest) simp_all
next
  case (Cons c pre)
  from Cons.prems(1) [of "c # pre"] have "rmatch ic r (c # pre @ rest, None) = []" by simp
  moreover have "rsearch (r, ic) (pre @ rest) = Some (snd st)"
  proof (rule Cons.IH)
    fix p2 :: jsstring assume "p2 \<noteq> []" "suffix p2 pre"
    then show "rmatch ic r (p2 @ rest, None) = []"
      using Cons.prems(1) [of p2] by (simp add: suffix_Cons)
  qed (rule Cons.prems(2))
  ultimately show ?case by simp
qed

lemma rsearch_none:
  "(\<And>s. suffix s t \<Longrightarrow> rmatch ic r (s, None) = []) \<Longrightarrow> rsearch (r, ic) t = None"
proof (induction t)
  case Nil
  then show ?case by simp
next
  case (Cons c t)
  from Cons.prems [of "c # t"] have "rmatch ic r (c # t, None) = []" by simp
  moreover have "rsearch (r, ic) t = None"
    by (rule Cons.IH) (simp add: Cons.prems suffix_Cons)
  ultimately show ?case by simp
qed

lemma digits_first:
  "\<not> isDigit c \<Longrightarrow> rmatch ic (Seq (Grp (Plus digit)) r) (c # cs, cap) = []"
  by (simp add: Plus_def digit_def clsMatch_digit)

lemma getField_setField_same:
  "k \<in> fst ` set patternTable \<Longrightarrow> getField k (setField k v d) = v"
  by (auto simp: patternTable_def getField_def setField_def)

lemma getField_setField_other:
  "k \<noteq> k' \<Longrightarrow> getField k (setField k' v d) = getField k d"
  by (auto simp: getField_def setField_def)


lemma patternTable_keys_set:
  "fst ` set patternTable = {''key'', ''camelot'', ''bpm'', ''duration'', ''releaseDate'',
     ''popularity'', ''energy'', ''danceability'', ''happiness'', ''acousticness'',
     ''instrumentalness'', ''liveness'', ''speechiness'', ''loudness''}"
  by (simp add: patternTable_def)

lemma patternPass_other:
  "patternPass doc rows d0 = Inr d1 \<Longrightarrow> k \<notin> fst ` set rows \<Longrightarrow> getField k d1 = getField k d0"
proof (induction rows arbitrary: d0)
  case Nil
  then show ?case by simp
next
  case (Cons row rows)
  obtain k' ps where row: "row = (k', ps)" by (cases row)
  with Cons.prems have k: "k \<noteq> k'" and rest: "k \<notin> fst ` set rows" by auto
  show ?case
  proof (cases "firstValue doc ps")
    case (Inl e)
    with Cons.prems(1) row show ?thesis by simp
  next
    case (Inr vo)
    show ?thesis
    proof (cases vo)
      case None
      with Inr Cons.prems(1) row have "patternPass doc rows d0 = Inr d1" by simp
      from Cons.IH [OF this rest] show ?thesis .
    next
      case (Some v)
      with Inr Cons.prems(1) row have "patternPass doc rows (setField k' v d0) = Inr d1" by simp
      from Cons.IH [OF this rest] k show ?thesis by (simp add: getField_setField_other)
    qed
  qed
qed

lemma patternPass_stores:
  "patternPass doc rows d0 = Inr d1 \<Longrightarrow> distinct (map fst rows) \<Longrightarrow> (k, ps) \<in> set rows \<Longrightarrow>
   k \<in> fst ` set patternTable \<Longrightarrow>
   getField k d1 = (case firstValue doc ps of Inr (Some v) \<Rightarrow> v | _ \<Rightarrow> getField k d0)"
proof (induction rows arbitrary: d0)
  case Nil
  then show ?case by simp
next
  case (Cons row rows)
  obtain k' ps' where row: "row = (k', ps')" by (cases row)
  from Cons.prems(2) row have nk: "k' \<notin> fst ` set rows" and dr: "distinct (map fst rows)" by auto
  show ?case
  proof (cases "(k, ps) = row")
    case True
    with row have e: "k' = k" "ps' = ps" by simp_all
    show ?thesis
    proof (cases "firstValue doc ps")
      case (Inl err)
      with Cons.prems(1) row e show ?thesis by simp
    next
      case (Inr vo)
      show ?thesis
      proof (cases vo)
        case None
        with Inr Cons.prems(1) row e have "patternPass doc rows d0 = Inr d1" by simp
        from patternPass_other [OF this] nk e None Inr show ?thesis by simp
      next
        case (Some v)
        with Inr Cons.prems(1) row e have "patternPass doc rows (setField k v d0) = Inr d1" by simp
        from patternPass_other [OF this] nk e Some Inr Cons.prems(4) show ?thesis
          by (simp add: getField_setField_same)
      qed
    qed
  next
    case False
    with Cons.prems(3) have mem: "(k, ps) \<in> set rows" by simp
    then have "k \<in> fst ` set rows" by force
    with nk have kk: "k \<noteq> k'" by auto
    show ?thesis
    proof (cases "firstValue doc ps'")
      case (Inl err)
      with Cons.prems(1) row show ?thesis by simp
    next
      case (Inr vo)
      show ?thesis
      proof (cases vo)
        case None
        with Inr Cons.prems(1) row have "patternPass doc rows d0 = Inr d1" by simp
        from Cons.IH [OF this dr mem Cons.prems(4)] show ?thesis .
      next
        case (Some v)
        with Inr Cons.prems(1) row have "patternPass doc rows (setField k' v d0) = Inr d1" by simp
        from Cons.IH [OF this dr mem Cons.prems(4)] kk show ?thesis
          by (simp add: getField_setField_other split: sum.splits option.splits)
      qed
    qed
  qed
qed

lemma patternTable_distinct: "distinct (map fst patternTable)"
  by (simp add: patternTable_def)

lemma extractPage_stores:
  assumes e: "extractPage doc = Inr (Some d)" and row: "(k, ps) \<in> set patternTable"
  shows "getField k d = (case firstValue doc ps of Inr (Some v) \<Rightarrow> v | _ \<Rightarrow> [])"
proof -
  let ?d0 = "(fst (metaPass doc metaSelectors initialData))\<lparr>albumArt :=
      (case getElement doc [albumArtSelector] of None \<Rightarrow> [] | Some img \<Rightarrow> src img)\<rparr>"
  from e obtain d1 b where pp: "patternPass doc patternTable ?d0 = Inr d1"
    and d: "d = d1\<lparr>explicit := b, recommendations := parseRecommendations (recommendedTracks doc) []\<rparr>"
    by (auto simp: extractPage_def split_beta Let_def split: sum.splits if_splits)
  from row have k: "k \<in> fst ` set patternTable" by force
  have "getField k (initialData\<lparr>title := t, artist := a, album := al, albumArt := x\<rparr>) = []"
    for t a al x using k
    by (auto simp: patternTable_keys_set getField_def initialData_def)
  then have z: "getField k ?d0 = []"
    by (simp only: metaPass_fields)
  from d have "getField k d = getField k d1" by (simp add: getField_def)
  also from patternPass_stores [OF pp patternTable_distinct row k] z
  have "getField k d1 = (case firstValue doc ps of Inr (Some v) \<Rightarrow> v | _ \<Rightarrow> [])"
    by (simp split: sum.splits option.splits)
  finally show ?thesis .
qed

lemma findText_pageText:
  "body doc \<noteq> None \<Longrightarrow>
   findText doc p = (case rsearch p (pageText doc) of
       None \<Rightarrow> Inr [] | Some None \<Rightarrow> Inl typeError | Some (Some g) \<Rightarrow> Inr (trim g))"
  by (auto simp: findText_def pageText_def)

lemma prefix_of_append:
  "prefix x (u @ v @ w) \<Longrightarrow> length x \<le> length u + length v \<Longrightarrow> prefix x (u @ v)"
proof -
  assume p: "prefix x (u @ v @ w)" and l: "length x \<le> length u + length v"
  from p obtain zs where e: "(u @ v) @ w = x @ zs" by (auto simp: prefix_def)
  have "take (length x) ((u @ v) @ w) = x" by (simp only: e) simp
  moreover have "take (length x) ((u @ v) @ w) = take (length x) (u @ v)" using l by simp
  ultimately have "x = take (length x) (u @ v)" by simp
  then show ?thesis by (metis take_is_prefix)
qed

lemma labelled_absent:
  assumes "\<not> sublist (map lower (js l) @ [0x3A]) (map lower t)"
  shows "rsearch (labelled l r, ic) t = None"
proof (rule rsearch_none)
  fix s :: jsstring assume s: "suffix s t"
  show "rmatch ic (labelled l r) (s, None) = []"
  proof (rule ccontr)
    assume "rmatch ic (labelled l r) (s, None) \<noteq> []"
    then have "prefix (map lower (js l) @ [0x3A]) (map lower s)" by (rule labelled_needs)
    then obtain z where z: "map lower s = (map lower (js l) @ [0x3A]) @ z" by (auto simp: prefix_def)
    from s obtain q where "t = q @ s" by (auto simp: suffix_def)
    with z have "map lower t = map lower q @ (map lower (js l) @ [0x3A]) @ z" by simp
    then have "sublist (map lower (js l) @ [0x3A]) (map lower t)" unfolding sublist_def by blast
    with assms show False ..
  qed
qed

lemma labelled_first_occurrence:
  assumes "\<not> sublist (map lower (js l) @ [0x3A]) (map lower (pre @ js l))"
    and "p2 \<noteq> []" and "suffix p2 pre"
  shows "rmatch ic (labelled l r) (p2 @ js l @ rest, None) = []"
proof (rule ccontr)
  assume "rmatch ic (labelled l r) (p2 @ js l @ rest, None) \<noteq> []"
  then have "prefix (map lower (js l) @ [0x3A]) (map lower (p2 @ js l @ rest))"
    by (rule labelled_needs)
  then have "prefix (map lower (js l) @ [0x3A]) (map lower p2 @ map lower (js l) @ map lower rest)"
    by simp
  moreover from assms(2) have "length (map lower (js l) @ [0x3A]) \<le> length (map lower p2) + length (map lower (js l))"
    by (cases p2) simp_all
  ultimately have "prefix (map lower (js l) @ [0x3A]) (map lower p2 @ map lower (js l))"
    by (rule prefix_of_append)
  then obtain z where z: "map lower p2 @ map lower (js l) = (map lower (js l) @ [0x3A]) @ z"
    by (auto simp: prefix_def)
  from assms(3) obtain q where "pre = q @ p2" by (auto simp: suffix_def)
  with z have "map lower (pre @ js l) = map lower q @ (map lower (js l) @ [0x3A]) @ z" by simp
  then have "sublist (map lower (js l) @ [0x3A]) (map lower (pre @ js l))"
    unfolding sublist_def by blast
  with assms(1) show False ..
qed

lemma rsearch_skip:
  "\<forall>c \<in> set a. \<not> isDigit c \<Longrightarrow>
   rsearch (Seq (Grp (Plus digit)) r, ic) (a @ t) = rsearch (Seq (Grp (Plus digit)) r, ic) t"
proof (induction a)
  case Nil
  then show ?case by simp
next
  case (Cons c a)
  then have "rmatch ic (Seq (Grp (Plus digit)) r) (c # a @ t, None) = []"
    by (simp add: digits_first del: rmatch.simps)
  with Cons show ?case by (simp del: rmatch.simps)
qed

lemma star_keeps_cap:
  "(\<And>st st'. st' \<in> set (f st) \<Longrightarrow> snd st \<noteq> None \<Longrightarrow> snd st' \<noteq> None) \<Longrightarrow>
   st' \<in> set (star f n st) \<Longrightarrow> snd st \<noteq> None \<Longrightarrow> snd st' \<noteq> None"
proof (induction n arbitrary: st)
  case 0
  then show ?case by simp
next
  case (Suc n)
  from Suc.prems(2) consider "st' = st"
    | st1 where "st1 \<in> set (f st)" "st' \<in> set (star f n st1)"
    by (auto split: if_splits)
  then show ?case
  proof cases
    case 1
    with Suc.prems(3) show ?thesis by simp
  next
    case 2
    from Suc.prems(1) [OF 2(1) Suc.prems(3)] have "snd st1 \<noteq> None" .
    from Suc.IH [OF Suc.prems(1) 2(2) this] show ?thesis by simp
  qed
qed

lemma rmatch_keeps_cap:
  "st' \<in> set (rmatch ic r st) \<Longrightarrow> snd st \<noteq> None \<Longrightarrow> snd st' \<noteq> None"
proof (induction r arbitrary: st st')
  case (Star r)
  from Star.prems(1) have "st' \<in> set (star (rmatch ic r) (length (fst st)) st)" by simp
  from star_keeps_cap [where f = "rmatch ic r", OF Star.IH this Star.prems(2)]
  show ?case by simp
qed (auto split: list.splits if_splits)

lemma rmatch_captures:
  "captures r \<Longrightarrow> st' \<in> set (rmatch ic r st) \<Longrightarrow> snd st' \<noteq> None"
proof (induction r arbitrary: st st')
  case (Seq a b)
  from Seq.prems(2) obtain st1 where 1: "st1 \<in> set (rmatch ic a st)" and 2: "st' \<in> set (rmatch ic b st1)"
    by auto
  show ?case
  proof (cases "captures b")
    case True
    from Seq.IH(2) [OF True 2] show ?thesis .
  next
    case False
    with Seq.prems(1) have "captures a" by simp
    from Seq.IH(1) [OF this 1] have "snd st1 \<noteq> None" .
    from rmatch_keeps_cap [OF 2 this] show ?thesis .
  qed
qed auto

lemma rsearch_captures: "captures r \<Longrightarrow> rsearch (r, ic) t \<noteq> Some None"
proof (induction t)
  case Nil
  show ?case
  proof (cases "rmatch ic r ([], None)")
    case Nil
    then show ?thesis by simp
  next
    case (Cons st sts)
    then have "st \<in> set (rmatch ic r ([], None))" by simp
    from rmatch_captures [OF Nil.prems this] Cons show ?thesis by simp
  qed
next
  case (Cons c t)
  show ?case
  proof (cases "rmatch ic r (c # t, None)")
    case Nil
    with Cons show ?thesis by simp
  next
    case (Cons st sts)
    then have "st \<in> set (rmatch ic r (c # t, None))" by simp
    from rmatch_captures [OF Cons.prems this] Cons show ?thesis by simp
  qed
qed

lemma patternTable_captures:
  "(k, ps) \<in> set patternTable \<Longrightarrow> p \<in> set ps \<Longrightarrow> captures (fst p)"
  by (auto simp: patternTable_def labelled_def seqs_def percentOf_def)

lemma findText_total:
  "body doc \<noteq> None \<Longrightarrow> captures (fst p) \<Longrightarrow> \<exists>v. findText doc p = Inr v"
  using rsearch_captures [of "fst p" "snd p" "pageText doc"]
  by (cases p) (auto simp: findText_pageText split: option.splits)

lemma firstValue_total:
  "body doc \<noteq> None \<Longrightarrow> \<forall>p \<in> set ps. captures (fst p) \<Longrightarrow> \<exists>vo. firstValue doc ps = Inr vo"
proof (induction ps)
  case Nil
  then show ?case by simp
next
  case (Cons p ps)
  from findText_total [OF Cons.prems(1), of p] Cons.prems(2)
  obtain v where "findText doc p = Inr v" by auto
  with Cons show ?case by auto
qed

lemma patternPass_total:
  "body doc \<noteq> None \<Longrightarrow> \<forall>(k, ps) \<in> set rows. \<forall>p \<in> set ps. captures (fst p) \<Longrightarrow>
   \<exists>d1. patternPass doc rows d0 = Inr d1"
proof (induction rows arbitrary: d0)
  case Nil
  then show ?case by simp
next
  case (Cons row rows)
  obtain k ps where row: "row = (k, ps)" by (cases row)
  with Cons.prems(2) have "\<forall>p \<in> set ps. captures (fst p)" by simp
  from firstValue_total [OF Cons.prems(1) this] obtain vo where v: "firstValue doc ps = Inr vo" ..
  from Cons.prems(2) have rest: "\<forall>(k, ps) \<in> set rows. \<forall>p \<in> set ps. captures (fst p)" by simp
  show ?case
  proof (cases vo)
    case None
    with v row Cons.IH [OF Cons.prems(1) rest, of d0] show ?thesis by simp
  next
    case (Some x)
    with v row Cons.IH [OF Cons.prems(1) rest, of "setField k x d0"] show ?thesis by simp
  qed
qed

lemma extractPage_total:
  assumes b: "body doc \<noteq> None" and g: "\<exists>(k, selectors) \<in> set metaSelectors. getText doc selectors \<noteq> []"
  shows "\<exists>d. extractPage doc = Inr (Some d)"
proof -
  from g have ng: "extractPage doc \<noteq> Inr None"
    by (simp add: extractPage_gate) (auto simp: metaSelectors_def)
  have "\<forall>(k, ps) \<in> set patternTable. \<forall>p \<in> set ps. captures (fst p)"
    using patternTable_captures by blast
  from patternPass_total [OF b this]
  obtain d1 where pp: "patternPass doc patternTable
      ((fst (metaPass doc metaSelectors initialData))\<lparr>albumArt :=
        (case getElement doc [albumArtSelector] of None \<Rightarrow> [] | Some img \<Rightarrow> src img)\<rparr>) = Inr d1"
    by blast
  from b obtain x where ex: "explicitTest doc = Inr x" by (auto simp: explicitTest_def)
  from ng have "list_ex (\<lambda>r. r) (snd (metaPass doc metaSelectors initialData))"
    by (auto simp: extractPage_def split_beta Let_def split: if_splits)
  with pp ex show ?thesis
    by (simp add: extractPage_def split_beta Let_def del: getElement.simps)
qed

lemma key_at:
  "\<exists>sts. rmatch True (labelled ''Key'' keyName) (js ''Key: F Minor'' @ rest, None)
     = (rest, Some (js ''F Minor'')) # sts"
  by (simp add: labelled_def keyName_def seqs_def lit_def js_def space_def clsMatch_def
      inRanges_def upper_def lower_def)

lemma bpm_at:
  "\<exists>sts. rmatch True (seqs [Grp (Plus digit), Star space, lit ''BPM'']) (js ''120 BPM'' @ rest, None)
     = (rest, Some (js ''120'')) # sts"
  by (simp add: seqs_def lit_def js_def space_def digit_def Plus_def clsMatch_def
      inRanges_def upper_def lower_def)

lemma energy_at:
  "\<exists>sts. rmatch True (fst (percentOf ''Energy'')) (js ''75 Energy'' @ rest, None)
     = (rest, Some (js ''75'')) # sts"
  by (simp add: percentOf_def seqs_def lit_def js_def space_def digit_def Plus_def clsMatch_def
      inRanges_def upper_def lower_def)

lemma energy_past_bpm:
  "rsearch (percentOf ''Energy'') (js ''120 BPM'' @ t) = rsearch (percentOf ''Energy'') t"
  by (simp add: percentOf_def seqs_def lit_def js_def space_def digit_def Plus_def clsMatch_def
      inRanges_def upper_def lower_def)

lemma key_found:
  assumes "t = pre @ js ''Key: F Minor'' @ rest"
    and "\<not> sublist (js ''key:'') (map lower (pre @ js ''Key''))"
  shows "rsearch (labelled ''Key'' keyName, True) t = Some (Some (js ''F Minor''))"
proof -
  have k: "map lower (js ''Key'') @ [0x3A] = js ''key:''" by (simp add: js_def lower_def)
  have split: "js ''Key: F Minor'' @ rest = js ''Key'' @ js '': F Minor'' @ rest"
    by (simp add: js_def)
  from key_at [of rest] obtain sts where
    m: "rmatch True (labelled ''Key'' keyName) (js ''Key: F Minor'' @ rest, None)
        = (rest, Some (js ''F Minor'')) # sts" ..
  have "rsearch (labelled ''Key'' keyName, True) (pre @ js ''Key: F Minor'' @ rest)
      = Some (snd (rest, Some (js ''F Minor'')))"
  proof (rule rsearch_leftmost [OF _ m])
    fix p2 :: jsstring assume p: "p2 \<noteq> []" "suffix p2 pre"
    from assms(2) have ns: "\<not> sublist (map lower (js ''Key'') @ [0x3A]) (map lower (pre @ js ''Key''))"
      by (simp only: k not_False_eq_True)
    show "rmatch True (labelled ''Key'' keyName) (p2 @ js ''Key: F Minor'' @ rest, None) = []"
      by (simp only: split) (rule labelled_first_occurrence [OF ns p])
  qed
  with assms(1) show ?thesis by simp
qed

lemma bpm_found:
  assumes "t = a @ js ''120 BPM'' @ rest" and "\<forall>c \<in> set a. \<not> isDigit c"
  shows "rsearch (seqs [Grp (Plus digit), Star space, lit ''BPM''], True) t = Some (Some (js ''120''))"
proof -
  have unf: "seqs [Grp (Plus digit), Star space, lit ''BPM'']
      = Seq (Grp (Plus digit)) (Seq (Star space) (Seq (lit ''BPM'') Eps))"
    by (simp add: seqs_def)
  from bpm_at [of rest] obtain sts where
    m: "rmatch True (seqs [Grp (Plus digit), Star space, lit ''BPM'']) (js ''120 BPM'' @ rest, None)
        = (rest, Some (js ''120'')) # sts" ..
  have c: "js ''120 BPM'' @ rest = 0x31 # (js ''20 BPM'' @ rest)" by (simp add: js_def)
  from m have "rsearch (seqs [Grp (Plus digit), Star space, lit ''BPM''], True) (js ''120 BPM'' @ rest)
      = Some (Some (js ''120''))"
    unfolding c by (simp del: rmatch.simps)
  with assms rsearch_skip [OF assms(2), of "Seq (Star space) (Seq (lit ''BPM'') Eps)" True
      "js ''120 BPM'' @ rest"]
  show ?thesis by (simp add: unf del: rmatch.simps)
qed

lemma energy_found:
  assumes "t = a @ js ''120 BPM'' @ m @ js ''Energy: 75 Energy'' @ post"
    and "\<forall>c \<in> set (a @ m). \<not> isDigit c"
  shows "rsearch (percentOf ''Energy'') t = Some (Some (js ''75''))"
proof -
  have unf: "percentOf ''Energy'' = (Seq (Grp (Plus digit)) (Seq (Star space)
      (Seq (Opt (seqs [Chr 0x2F, Star space, Plus digit])) (Seq (Star space) (Seq (lit ''Energy'') Eps)))), True)"
    by (simp add: percentOf_def seqs_def)
  have skip: "\<forall>c \<in> set x. \<not> isDigit c \<Longrightarrow>
      rsearch (percentOf ''Energy'') (x @ u) = rsearch (percentOf ''Energy'') u" for x u
    unfolding unf by (rule rsearch_skip)
  from assms(2) have da: "\<forall>c \<in> set a. \<not> isDigit c" and dm: "\<forall>c \<in> set m. \<not> isDigit c" by simp_all
  have dl: "\<forall>c \<in> set (js ''Energy: ''). \<not> isDigit c" by (simp add: js_def isDigit_def)
  have e: "js ''Energy: 75 Energy'' @ post = js ''Energy: '' @ js ''75 Energy'' @ post"
    by (simp add: js_def)
  from energy_at [of post] obtain sts where
    m: "rmatch True (fst (percentOf ''Energy'')) (js ''75 Energy'' @ post, None)
        = (post, Some (js ''75'')) # sts" ..
  have c: "js ''75 Energy'' @ post = 0x37 # (js ''5 Energy'' @ post)" by (simp add: js_def)
  from m have here: "rsearch (percentOf ''Energy'') (js ''75 Energy'' @ post) = Some (Some (js ''75''))"
    unfolding c unf by (simp del: rmatch.simps)
  have "rsearch (percentOf ''Energy'') t
      = rsearch (percentOf ''Energy'') (js ''120 BPM'' @ m @ js ''Energy: 75 Energy'' @ post)"
    unfolding assms(1) by (rule skip [OF da])
  also have "\<dots> = rsearch (percentOf ''Energy'') (m @ js ''Energy: 75 Energy'' @ post)"
    by (rule energy_past_bpm)
  also have "\<dots> = rsearch (percentOf ''Energy'') (js ''Energy: 75 Energy'' @ post)"
    by (rule skip [OF dm])
  also have "\<dots> = rsearch (percentOf ''Energy'') (js ''75 Energy'' @ post)"
    unfolding e by (rule skip [OF dl])
  finally show ?thesis using here by simp
qed

lemma trim_values:
  "trim (js ''F Minor'') = js ''F Minor''" "trim (js ''120'') = js ''120''"
  "trim (js ''75'') = js ''75''"
  by (simp_all add: trim_def js_def isSpace_def)

lemma family_values:
  assumes b: "body doc \<noteq> None"
    and g: "\<exists>(k, selectors) \<in> set metaSelectors. getText doc selectors \<noteq> []"
    and k1: "pageText doc = pre @ js ''Key: F Minor'' @ rest"
    and k2: "\<not> sublist (js ''key:'') (map lower (pre @ js ''Key''))"
    and b1: "\<not> sublist (js ''bpm:'') (map lower (pageText doc))"
    and b2: "\<not> sublist (js ''tempo:'') (map lower (pageText doc))"
    and t: "pageText doc = a @ js ''120 BPM'' @ m @ js ''Energy: 75 Energy'' @ post"
    and d: "\<forall>c \<in> set (a @ m). \<not> isDigit c"
  shows "\<exists>d. extractPage doc = Inr (Some d) \<and> key d = js ''F Minor'' \<and> bpm d = js ''120''
     \<and> energy d = js ''75''"
proof -
  from extractPage_total [OF b g] obtain d where e: "extractPage doc = Inr (Some d)" ..
  have n: "js ''F Minor'' \<noteq> []" "js ''120'' \<noteq> []" "js ''75'' \<noteq> []" by (simp_all add: js_def)
  have l: "map lower (js ''BPM'') @ [0x3A] = js ''bpm:''" "map lower (js ''Tempo'') @ [0x3A] = js ''tempo:''"
    by (simp_all add: js_def lower_def)
  have f1: "findText doc (labelled ''Key'' keyName, True) = Inr (js ''F Minor'')"
    by (simp add: findText_pageText [OF b] key_found [OF k1 k2] trim_values)
  have f2: "findText doc (labelled ''BPM'' (Plus digit), True) = Inr []"
    using b1 by (simp add: findText_pageText [OF b] labelled_absent l)
  have f3: "findText doc (labelled ''Tempo'' (Plus digit), True) = Inr []"
    using b2 by (simp add: findText_pageText [OF b] labelled_absent l)
  from d have da: "\<forall>c \<in> set a. \<not> isDigit c" by simp
  have f4: "findText doc (seqs [Grp (Plus digit), Star space, lit ''BPM''], True) = Inr (js ''120'')"
    by (simp add: findText_pageText [OF b] bpm_found [OF t da] trim_values)
  have f5: "findText doc (percentOf ''Energy'') = Inr (js ''75'')"
    by (simp add: findText_pageText [OF b] energy_found [OF t d] trim_values)
  have r1: "(''key'', [(labelled ''Key'' keyName, True), (Grp keyName, True)]) \<in> set patternTable"
    and r2: "(''bpm'', [(labelled ''BPM'' (Plus digit), True), (labelled ''Tempo'' (Plus digit), True),
        (seqs [Grp (Plus digit), Star space, lit ''BPM''], True)]) \<in> set patternTable"
    and r3: "(''energy'', [percentOf ''Energy'']) \<in> set patternTable"
    by (simp_all add: patternTable_def)
  from extractPage_stores [OF e r1] have "key d = js ''F Minor''"
    by (simp add: getField_def f1 n)
  moreover from extractPage_stores [OF e r2] have "bpm d = js ''120''"
    by (simp add: getField_def f2 f3 f4 n)
  moreover from extractPage_stores [OF e r3] have "energy d = js ''75''"
    by (simp add: getField_def f5 n)
  ultimately show ?thesis using e by blast
qed

lemma scrape_first_attempt:
  assumes "whichChromium b = Inr path" "launch b = None" "pageSetup b = None"
    "closeBrowser b = None" "attempts b 0 = serving c doc" "\<not> blockSignature c"
    "extractPage doc = Inr (Some d)"
  shows "fst (scrapeTunebatData ar s t b) =
     Inr \<lparr> success = True, url = Some (buildUrl ar s t), data = Some (Data d),
       error = None, debugImagePath = js ''debug.png'' \<rparr>"
proof -
  from assms(6,7) have "outcomeOf (serving c doc) = Extracted d"
    by (simp add: outcomeOf_def runAttempt_def serving_def blockSignature_def)
  with assms(5) have "fst (retryLoop u (attempts b) (Suc (Suc (Suc 0))) 0 []) = Some d" for u
    by (simp add: retryLoop_step del: retryLoop.simps(2))
  then have "fst (retryLoop u (attempts b) 3 0 []) = Some d" for u
    by (simp add: numeral_3_eq_3)
  with assms(1-4) show ?thesis
    by (simp add: scrapeTunebatData_def tryBlock_def split_beta Let_def del: retryLoop.simps)
qed

text \<open>
  C6, as amended. Each pattern takes its leftmost match in the page text, and a field
  receives the value of the first pattern of its row, in the order of the table (the
  labelled forms before the bare one), that gives a non-empty value; the patterns after
  it have no influence. So the values "F Minor", "120" and "75" are extracted from every
  page that passes the gate, has a body, and whose text has "Key: F Minor" at the first
  place where "key:" occurs in any case, has no "bpm:" and no "tempo:" in any case, and
  reads \<open>a\<close>, "120 BPM", \<open>m\<close>, "Energy: 75 Energy", \<open>post\<close> with no digit in
  \<open>a\<close> and \<open>m\<close>; and a scrape whose first attempt loads such a page unblocked returns
  that record.
\<close>

theorem pattern_pass_leftmost_first:
  "(body doc \<noteq> None \<and> (\<exists>(k, selectors) \<in> set metaSelectors. getText doc selectors \<noteq> [])
      \<and> pageText doc = pre @ js ''Key: F Minor'' @ rest
      \<and> \<not> sublist (js ''key:'') (map lower (pre @ js ''Key''))
      \<and> \<not> sublist (js ''bpm:'') (map lower (pageText doc))
      \<and> \<not> sublist (js ''tempo:'') (map lower (pageText doc))
      \<and> pageText doc = a @ js ''120 BPM'' @ m @ js ''Energy: 75 Energy'' @ post
      \<and> (\<forall>c \<in> set (a @ m). \<not> isDigit c) \<longrightarrow>
      (\<exists>d. extractPage doc = Inr (Some d) \<and> key d = js ''F Minor'' \<and> bpm d = js ''120''
         \<and> energy d = js ''75''))
   \<and> (extractPage doc = Inr (Some d) \<and> (k, ps) \<in> set patternTable \<longrightarrow>
        getField k d = (case firstValue doc ps of Inr (Some v) \<Rightarrow> v | _ \<Rightarrow> []))
   \<and> ((\<forall>q \<in> set qs. findText doc q = Inr []) \<and> findText doc p = Inr v \<and> v \<noteq> [] \<longrightarrow>
        firstValue doc (qs @ p # ps') = Inr (Some v))
   \<and> (body doc \<noteq> None \<and> pageText doc = u @ w
        \<and> (\<forall>p2. p2 \<noteq> [] \<and> suffix p2 u \<longrightarrow> rmatch ic r (p2 @ w, None) = [])
        \<and> rmatch ic r (w, None) = (w', Some g) # sts \<longrightarrow>
        findText doc (r, ic) = Inr (trim g))
   \<and> (whichChromium b = Inr path \<and> launch b = None \<and> pageSetup b = None
        \<and> closeBrowser b = None \<and> attempts b 0 = serving c doc \<and> \<not> blockSignature c
        \<and> extractPage doc = Inr (Some d) \<longrightarrow>
        fst (scrapeTunebatData ar s t b) =
          Inr \<lparr> success = True, url = Some (buildUrl ar s t), data = Some (Data d),
            error = None, debugImagePath = js ''debug.png'' \<rparr>)"
proof (intro conjI impI)
  assume h: "body doc \<noteq> None \<and> (\<exists>(k, selectors) \<in> set metaSelectors. getText doc selectors \<noteq> [])
      \<and> pageText doc = pre @ js ''Key: F Minor'' @ rest
      \<and> \<not> sublist (js ''key:'') (map lower (pre @ js ''Key''))
      \<and> \<not> sublist (js ''bpm:'') (map lower (pageText doc))
      \<and> \<not> sublist (js ''tempo:'') (map lower (pageText doc))
      \<and> pageText doc = a @ js ''120 BPM'' @ m @ js ''Energy: 75 Energy'' @ post
      \<and> (\<forall>c \<in> set (a @ m). \<not> isDigit c)"
  then show "\<exists>d. extractPage doc = Inr (Some d) \<and> key d = js ''F Minor'' \<and> bpm d = js ''120''
         \<and> energy d = js ''75''"
    by (intro family_values [where pre = pre and rest = rest and a = a and m = m and post = post])
      blast+
next
  assume "extractPage doc = Inr (Some d) \<and> (k, ps) \<in> set patternTable"
  then show "getField k d = (case firstValue doc ps of Inr (Some v) \<Rightarrow> v | _ \<Rightarrow> [])"
    using extractPage_stores by blast
next
  assume "(\<forall>q \<in> set qs. findText doc q = Inr []) \<and> findText doc p = Inr v \<and> v \<noteq> []"
  then show "firstValue doc (qs @ p # ps') = Inr (Some v)"
    by (simp add: firstValue_first_match)
next
  assume h: "body doc \<noteq> None \<and> pageText doc = u @ w
        \<and> (\<forall>p2. p2 \<noteq> [] \<and> suffix p2 u \<longrightarrow> rmatch ic r (p2 @ w, None) = [])
        \<and> rmatch ic r (w, None) = (w', Some g) # sts"
  then have "rsearch (r, ic) (u @ w) = Some (snd (w', Some g))"
    by (intro rsearch_leftmost [where sts = sts]) blast+
  with h show "findText doc (r, ic) = Inr (trim g)"
    by (simp add: findText_pageText)
next
  assume "whichChromium b = Inr path \<and> launch b = None \<and> pageSetup b = None
        \<and> closeBrowser b = None \<and> attempts b 0 = serving c doc \<and> \<not> blockSignature c
        \<and> extractPage doc = Inr (Some d)"
  then show "fst (scrapeTunebatData ar s t b) =
          Inr \<lparr> success = True, url = Some (buildUrl ar s t), data = Some (Data d),
            error = None, debugImagePath = js ''debug.png'' \<rparr>"
    by (intro scrape_first_attempt [where path = path and c = c and doc = doc]) blast+
qed

theorem pattern_pass_leftmost_first_witness:
  "extractedValues mockPage = Some (js ''F Minor'', js ''120'', js ''75'')
   \<and> findText orderPage (labelled ''BPM'' (Plus digit), True) = Inr []
   \<and> findText orderPage (labelled ''Tempo'' (Plus digit), True) = Inr (js ''98'')
   \<and> findText orderPage (seqs [Grp (Plus digit), Star space, lit ''BPM''], True) = Inr (js ''120'')
   \<and> firstValue orderPage [(labelled ''BPM'' (Plus digit), True),
        (labelled ''Tempo'' (Plus digit), True),
        (seqs [Grp (Plus digit), Star space, lit ''BPM''], True)] = Inr (Some (js ''98''))
   \<and> findText orderPage (Grp keyName, True) = Inr (js ''A min'')
   \<and> extractedValues orderPage = Some (js ''F Minor'', js ''98'', [])"
proof -
  have b: "body mockPage \<noteq> None" by code_simp
  have g: "\<exists>(k, selectors) \<in> set metaSelectors. getText mockPage selectors \<noteq> []" by code_simp
  have t1: "pageText mockPage = js ''One More Time'' @ js ''Key: F Minor''
      @ js ''120 BPMEnergy: 75 Energy''" by code_simp
  have t2: "pageText mockPage = js ''One More TimeKey: F Minor'' @ js ''120 BPM'' @ []
      @ js ''Energy: 75 Energy'' @ []" by code_simp
  have n1: "\<not> sublist (js ''key:'') (map lower (js ''One More Time'' @ js ''Key''))" by code_simp
  have n2: "\<not> sublist (js ''bpm:'') (map lower (pageText mockPage))" by code_simp
  have n3: "\<not> sublist (js ''tempo:'') (map lower (pageText mockPage))" by code_simp
  have dg: "\<forall>c \<in> set (js ''One More TimeKey: F Minor'' @ []). \<not> isDigit c" by code_simp
  have "\<exists>d. extractPage mockPage = Inr (Some d) \<and> key d = js ''F Minor'' \<and> bpm d = js ''120''
      \<and> energy d = js ''75''"
    by (rule pattern_pass_leftmost_first [of mockPage "js ''One More Time''"
          "js ''120 BPMEnergy: 75 Energy''" "js ''One More TimeKey: F Minor''" "[]" "[]",
          THEN conjunct1, THEN mp])
      (intro conjI b g t1 n1 n2 n3 t2 dg)
  then have 1: "extractedValues mockPage = Some (js ''F Minor'', js ''120'', js ''75'')"
    by (auto simp: extractedValues_def)
  have 2: "findText orderPage (labelled ''BPM'' (Plus digit), True) = Inr []" by code_simp
  have 3: "findText orderPage (labelled ''Tempo'' (Plus digit), True) = Inr (js ''98'')" by code_simp
  have 4: "findText orderPage (seqs [Grp (Plus digit), Star space, lit ''BPM''], True)
      = Inr (js ''120'')" by code_simp
  have n: "js ''98'' \<noteq> []" by (simp add: js_def)
  have 5: "firstValue orderPage ([(labelled ''BPM'' (Plus digit), True)]
        @ (labelled ''Tempo'' (Plus digit), True)
        # [(seqs [Grp (Plus digit), Star space, lit ''BPM''], True)]) = Inr (Some (js ''98''))"
    by (rule pattern_pass_leftmost_first [where doc = orderPage, THEN conjunct2, THEN conjunct2,
          THEN conjunct1, THEN mp])
      (simp add: 2 3 n)
  have 6: "findText orderPage (Grp keyName, True) = Inr (js ''A min'')" by code_simp
  have 7: "extractedValues orderPage = Some (js ''F Minor'', js ''98'', [])" by code_simp
  from 1 2 3 4 5 6 7 show ?thesis by simp
qed

text \<open>
  The claim as stated fails: a page can hold the three strings, pass the gate, and give
  other values, because an earlier line matches first.
\<close>

theorem earlier_match_counterexample:
  "sublist (js ''Key: F Minor'') (pageText earlierValues)
   \<and> sublist (js ''120 BPM'') (pageText earlierValues)
   \<and> sublist (js ''Energy: 75 Energy'') (pageText earlierValues)
   \<and> getText earlierValues (snd (metaSelectors ! 0)) = js ''One More Time''
   \<and> extractedValues earlierValues = Some (js ''C Major'', js ''99'', js ''50'')"
proof -
  have 1: "sublist (js ''Key: F Minor'') (pageText earlierValues)" by code_simp
  have 2: "sublist (js ''120 BPM'') (pageText earlierValues)" by code_simp
  have 3: "sublist (js ''Energy: 75 Energy'') (pageText earlierValues)" by code_simp
  have 4: "getText earlierValues (snd (metaSelectors ! 0)) = js ''One More Time''" by code_simp
  have 5: "extractedValues earlierValues = Some (js ''C Major'', js ''99'', js ''50'')"
    by code_simp
  from 1 2 3 4 5 show ?thesis by simp
qed

section \<open>Properties of the recommendation parser\<close>

lemma parseRecommendations_acc:
  "parseRecommendations tracks acc = acc @ List.map_filter entryOf tracks"
  by (induction tracks arbitrary: acc)
    (simp_all add: List.map_filter_simps entryOf_def split: sum.splits option.splits)

lemma entryOf_hasTrackId: "(entryOf t \<noteq> None) = hasTrackId t"
  by (simp add: entryOf_def hasTrackId_def parseRecommendation_def Let_def
      split: sum.splits option.splits)

lemma entryOf_spotifyId: "entryOf t = Some r \<Longrightarrow> trackIdOf t = Inr (spotifyId r)"
  by (auto simp: entryOf_def parseRecommendation_def Let_def
      split: sum.splits option.splits if_splits)

lemma length_map_filter: "length (List.map_filter f xs) = length (filter (\<lambda>x. f x \<noteq> None) xs)"
  by (simp add: List.map_filter_def)

text \<open>
  C5. The parser produces the entries of the fragments that have a non-empty derived
  identifier, one for each, in the order of the fragments. A fragment whose identifier
  is empty, or whose parsing throws, contributes nothing and leaves the entries of the
  fragments before and after it as they are. Five fragments of which four have an
  identifier give four entries.
\<close>

theorem recommendations_per_fragment:
  "parseRecommendations tracks [] = List.map_filter entryOf tracks
   \<and> (\<forall>f. (entryOf f \<noteq> None) = hasTrackId f)
   \<and> (\<forall>f r. entryOf f = Some r \<longrightarrow> trackIdOf f = Inr (spotifyId r))
   \<and> length (parseRecommendations tracks []) = length (filter hasTrackId tracks)
   \<and> (\<not> hasTrackId t \<longrightarrow>
        parseRecommendations (xs @ t # ys) [] = parseRecommendations xs [] @ parseRecommendations ys [])
   \<and> (length tracks = 5 \<and> length (filter hasTrackId tracks) = 4 \<longrightarrow>
        length (parseRecommendations tracks []) = 4)"
proof -
  have 1: "parseRecommendations ts [] = List.map_filter entryOf ts" for ts
    by (simp add: parseRecommendations_acc)
  have "(\<lambda>x. entryOf x \<noteq> None) = hasTrackId"
    by (rule ext) (rule entryOf_hasTrackId)
  then have 2: "length (parseRecommendations ts []) = length (filter hasTrackId ts)" for ts
    by (simp only: 1 length_map_filter)
  have 3: "parseRecommendations (xs @ t # ys) [] = parseRecommendations xs [] @ parseRecommendations ys []"
    if "\<not> hasTrackId t"
  proof -
    from that have "entryOf t = None" using entryOf_hasTrackId [of t] by simp
    then show ?thesis by (simp add: 1 List.map_filter_def)
  qed
  from 1 2 3 entryOf_hasTrackId entryOf_spotifyId show ?thesis by simp
qed

theorem recommendations_per_fragment_witness:
  "length fiveCards = 5 \<and> length (filter hasTrackId fiveCards) = 4
   \<and> parseRecommendations fiveCards [] =
       [entry ''A'' ''id1'', entry ''B'' ''id2'', entry ''D'' ''id4'', entry ''E'' ''id5'']
   \<and> parseRecommendation (throwingCards ! 1) = Inl typeError
   \<and> parseRecommendations throwingCards [] = [entry ''A'' ''id1'', entry ''B'' ''id2'']"
proof -
  have 1: "length fiveCards = 5" by (simp add: fiveCards_def)
  have 2: "length (filter hasTrackId fiveCards) = 4" by code_simp
  have 3: "parseRecommendations fiveCards [] =
       [entry ''A'' ''id1'', entry ''B'' ''id2'', entry ''D'' ''id4'', entry ''E'' ''id5'']"
    by code_simp
  have 4: "parseRecommendation (throwingCards ! 1) = Inl typeError" by code_simp
  have 5: "\<not> hasTrackId (throwingCards ! 1)" by (simp add: hasTrackId_def trackIdOf_def)
      code_simp
  have 6: "parseRecommendations throwingCards [] = [entry ''A'' ''id1'', entry ''B'' ''id2'']"
    by code_simp
  from recommendations_per_fragment [of fiveCards "throwingCards ! 1" "[throwingCards ! 0]"
      "[throwingCards ! 2]"] 1 2 3 4 5 6
  show ?thesis by simp
qed

section \<open>Properties of the result assembler\<close>

lemma runAttempt_screenshot:
  "Screenshot p \<in> set (snd (runAttempt u a)) \<longleftrightarrow>
     p = js ''debug.png'' \<and> goto a = None \<and> (\<exists>c. content a = Inr c \<and> \<not> blockSignature c)
     \<and> screenshot a = None"
  by (auto simp: runAttempt_def blockSignature_def split: option.splits sum.splits)

lemma runAttempt_screenshots:
  "screenshots (snd (runAttempt u a)) =
     (if goto a = None \<and> (\<exists>c. content a = Inr c \<and> \<not> blockSignature c) \<and> screenshot a = None
      then 1 else 0)"
  by (auto simp: runAttempt_def blockSignature_def split: option.splits sum.splits)

lemma retryLoop_screenshot_path:
  "Screenshot p \<in> set (snd (retryLoop u att r n tr)) \<Longrightarrow>
   Screenshot p \<in> set tr \<or> p = js ''debug.png''"
proof (induction r arbitrary: n tr)
  case 0
  then show ?case by simp
next
  case (Suc r)
  have ev: "Screenshot p \<in> set (snd (runAttempt u (att n))) \<Longrightarrow> p = js ''debug.png''"
    by (simp add: runAttempt_screenshot)
  show ?case
  proof (cases "outcomeOf (att n)")
    case Blocked
    with Suc.prems Suc.IH [of "Suc n" "tr @ snd (runAttempt u (att n))"] ev show ?thesis
      by (auto simp add: retryLoop_step simp del: retryLoop.simps(2))
  next
    case (Extracted d)
    with Suc.prems ev show ?thesis
      by (auto simp add: retryLoop_step simp del: retryLoop.simps(2))
  next
    case NoData
    with Suc.prems Suc.IH [of "Suc n" "tr @ snd (runAttempt u (att n)) @ [Pause 2500 1000]"] ev
    show ?thesis
      by (auto simp add: retryLoop_step simp del: retryLoop.simps(2))
  next
    case (Thrown e)
    with Suc.prems Suc.IH [of "Suc n" "tr @ snd (runAttempt u (att n))
        @ (if r > 0 then [Pause 4500 1500] else [])"] ev
    show ?thesis
      by (auto simp add: retryLoop_step simp del: retryLoop.simps(2) split: if_splits)
  qed
qed

lemma tryBlock_screenshot_path:
  "Screenshot p \<in> set (snd (tryBlock a s t b)) \<Longrightarrow> p = js ''debug.png''"
proof (cases "pageSetup b")
  case None
  assume "Screenshot p \<in> set (snd (tryBlock a s t b))"
  with None have "Screenshot p \<in> set (snd (retryLoop (buildUrl a s t) (attempts b) 3 0 []))"
    by (simp add: tryBlock_loop Let_def del: retryLoop.simps)
  from retryLoop_screenshot_path [OF this] show ?thesis by simp
next
  case (Some e)
  assume "Screenshot p \<in> set (snd (tryBlock a s t b))"
  with Some show ?thesis by (simp add: tryBlock_def)
qed

lemma tryBlock_debugImagePath: "debugImagePath (fst (tryBlock a s t b)) = js ''debug.png''"
  by (cases "pageSetup b") (simp_all add: tryBlock_def split_beta Let_def del: retryLoop.simps)

text \<open>
  C8, as amended. On an attempt the screenshot is written exactly when the page has
  loaded, its content has been read and shows no block signature (and the screenshot call
  itself does not throw); an attempt that detects a block signature writes none. Every
  screenshot of an invocation goes to the one path \<^verbatim>\<open>debug.png\<close>, and every result
  that is returned carries that path.
\<close>

theorem screenshot_only_when_not_blocked:
  "((Screenshot (js ''debug.png'') \<in> set (snd (runAttempt u a))) =
      (goto a = None \<and> (\<exists>c. content a = Inr c \<and> \<not> blockSignature c) \<and> screenshot a = None))
   \<and> (detectsBlock a \<longrightarrow> screenshots (snd (runAttempt u a)) = 0)
   \<and> screenshots (snd (runAttempt u a)) \<le> 1
   \<and> (\<forall>p. Screenshot p \<in> set (snd (scrapeTunebatData ar s t b)) \<longrightarrow> p = js ''debug.png'')
   \<and> (fst (scrapeTunebatData ar s t b) = Inr r \<longrightarrow> debugImagePath r = js ''debug.png'')"
proof (intro conjI impI allI)
  show "(Screenshot (js ''debug.png'') \<in> set (snd (runAttempt u a))) =
      (goto a = None \<and> (\<exists>c. content a = Inr c \<and> \<not> blockSignature c) \<and> screenshot a = None)"
    by (simp add: runAttempt_screenshot)
  show "screenshots (snd (runAttempt u a)) = 0" if "detectsBlock a"
    using that by (auto simp: runAttempt_screenshots detectsBlock_def)
  show "screenshots (snd (runAttempt u a)) \<le> 1"
    by (simp add: runAttempt_screenshots)
  show "p = js ''debug.png''" if "Screenshot p \<in> set (snd (scrapeTunebatData ar s t b))" for p
  proof -
    from that have "Screenshot p \<in> set (snd (tryBlock ar s t b))"
      by (auto simp: scrapeTunebatData_def split_beta Let_def
          split: sum.splits option.splits)
    then show ?thesis by (rule tryBlock_screenshot_path)
  qed
  show "debugImagePath r = js ''debug.png''" if "fst (scrapeTunebatData ar s t b) = Inr r"
    using scrape_result_cases [OF that] by (simp add: tryBlock_debugImagePath)
qed

theorem screenshot_only_when_not_blocked_witness:
  "detectsBlock blockPage
   \<and> screenshots (snd (runAttempt (js ''u'') blockPage)) = 0
   \<and> Screenshot (js ''debug.png'') \<in> set (snd (runAttempt (js ''u'') (serving mockContent mockPage)))
   \<and> fst (scrapeTunebatData (js ''a'') (js ''s'') (js ''t'') (chromium (\<lambda>n. blockPage))) =
       Inr \<lparr> success = False, url = Some (buildUrl (js ''a'') (js ''s'') (js ''t'')),
         data = Some EmptyObject, error = Some (js ''Failed to extract data''),
         debugImagePath = js ''debug.png'' \<rparr>"
proof -
  have g: "goto (serving mockContent mockPage) = None \<and>
      (\<exists>c. content (serving mockContent mockPage) = Inr c \<and> \<not> blockSignature c) \<and>
      screenshot (serving mockContent mockPage) = None"
    by (simp add: serving_def mockContent_clear)
  from screenshot_only_when_not_blocked [of "js ''u''" blockPage "js ''a''" "js ''s''" "js ''t''"
      "chromium (\<lambda>n. blockPage)"]
    screenshot_only_when_not_blocked [of "js ''u''" "serving mockContent mockPage"]
    detectsBlock_blockPage g scrape_blocked [of "js ''a''" "js ''s''" "js ''t''"]
  show ?thesis by simp
qed

text \<open>
  The claim as stated fails: on a page that always shows a block signature three
  attempts are made, each reads the content, and no screenshot is written.
\<close>

theorem blocked_attempts_counterexample:
  "detectsBlock blockPage
   \<and> navigations (snd (scrapeTunebatData (js ''Daft Punk'') (js ''One More Time'')
        (js ''0TyaAdfWWdTCBtCw3HrDwO'') (chromium alwaysBlocked))) = 3
   \<and> screenshots (snd (scrapeTunebatData (js ''Daft Punk'') (js ''One More Time'')
        (js ''0TyaAdfWWdTCBtCw3HrDwO'') (chromium alwaysBlocked))) = 0"
proof -
  have 1: "outcomeOf blockPage = Blocked"
    by (simp add: detectsBlock_outcome [OF detectsBlock_blockPage])
  have 2: "snd (runAttempt u blockPage) = [Navigate u, Pause 3956 1487, Pause 4000 2000]" for u
    using detectsBlock_blockPage
    by (auto simp: runAttempt_def detectsBlock_def blockSignature_def split: sum.splits option.splits)
  have "snd (retryLoop u (\<lambda>n. blockPage) (Suc (Suc (Suc 0))) 0 []) =
      [Navigate u, Pause 3956 1487, Pause 4000 2000, Navigate u, Pause 3956 1487, Pause 4000 2000,
       Navigate u, Pause 3956 1487, Pause 4000 2000]" for u
    by (simp add: retryLoop_step 1 2 del: retryLoop.simps(2))
  then have 3: "snd (retryLoop u (\<lambda>n. blockPage) 3 0 []) =
      [Navigate u, Pause 3956 1487, Pause 4000 2000, Navigate u, Pause 3956 1487, Pause 4000 2000,
       Navigate u, Pause 3956 1487, Pause 4000 2000]" for u
    by (simp add: numeral_3_eq_3)
  have "snd (scrapeTunebatData a s t (chromium (\<lambda>n. blockPage))) =
      Launch (trim (js ''/usr/bin/chromium'')) # snd (retryLoop (buildUrl a s t) (\<lambda>n. blockPage) 3 0 []) @ [Close]"
    for a s t
    by (simp add: scrapeTunebatData_def chromium_def tryBlock_def split_beta Let_def
        del: retryLoop.simps)
  then show ?thesis
    by (simp add: 3 alwaysBlocked_def detectsBlock_blockPage navigations_append
        screenshots_append del: retryLoop.simps)
qed

text \<open>
  C1, as amended. The browser is found and launched before the \<^verbatim>\<open>try\<close> block: when
  \<^verbatim>\<open>which chromium\<close> or \<^verbatim>\<open>puppeteer.launch\<close> throws, no result is returned and the
  exception reaches the caller. An exception of the page set-up, inside the \<^verbatim>\<open>try\<close>
  block, gives the failure result with the exception's message, no URL and no data,
  when closing the browser succeeds.
\<close>

theorem launch_failure_reaches_caller:
  "(whichChromium b = Inl e \<longrightarrow> scrapeTunebatData a s t b = (Inl e, []))
   \<and> (whichChromium b = Inr p \<and> launch b = Some e \<longrightarrow> scrapeTunebatData a s t b = (Inl e, []))
   \<and> (whichChromium b = Inr p \<and> launch b = None \<and> pageSetup b = Some e \<and> closeBrowser b = None \<longrightarrow>
        scrapeTunebatData a s t b =
          (Inr \<lparr> success = False, url = None, data = None, error = Some e,
             debugImagePath = js ''debug.png'' \<rparr>, [Launch (trim p), Close]))"
  by (simp add: scrapeTunebatData_def tryBlock_def)

theorem launch_failure_reaches_caller_witness:
  "scrapeTunebatData (js ''Daft Punk'') (js ''One More Time'') (js ''0TyaAdfWWdTCBtCw3HrDwO'') launchFails
     = (Inl (js ''Failed to launch the browser process!''), [])
   \<and> scrapeTunebatData (js ''Daft Punk'') (js ''One More Time'') (js ''0TyaAdfWWdTCBtCw3HrDwO'') setupFails
     = (Inr \<lparr> success = False, url = None, data = None, error = Some (js ''Target closed''),
          debugImagePath = js ''debug.png'' \<rparr>, [Launch (js ''/usr/bin/chromium''), Close])"
proof -
  have 1: "whichChromium launchFails = Inr (js ''/usr/bin/chromium'') \<and>
      launch launchFails = Some (js ''Failed to launch the browser process!'')"
    by (simp add: launchFails_def chromium_def)
  have 2: "whichChromium setupFails = Inr (js ''/usr/bin/chromium'') \<and> launch setupFails = None
      \<and> pageSetup setupFails = Some (js ''Target closed'') \<and> closeBrowser setupFails = None"
    by (simp add: setupFails_def chromium_def)
  have 3: "trim (js ''/usr/bin/chromium'') = js ''/usr/bin/chromium''"
    by (simp add: trim_def js_def isSpace_def)
  from launch_failure_reaches_caller [where b = launchFails and p = "js ''/usr/bin/chromium''"
      and e = "js ''Failed to launch the browser process!''"] 1
    launch_failure_reaches_caller [where b = setupFails and p = "js ''/usr/bin/chromium''"
      and e = "js ''Target closed''"] 2 3
  show ?thesis by simp
qed

text \<open>
  The claim as stated fails: when the browser executable is not found, the call returns
  no result; the promise is rejected with the exception.
\<close>

theorem launch_failure_counterexample:
  "scrapeTunebatData (js ''Daft Punk'') (js ''One More Time'') (js ''0TyaAdfWWdTCBtCw3HrDwO'') noChromium
     = (Inl (js ''Command failed: which chromium''), [])"
  by (simp add: scrapeTunebatData_def noChromium_def chromium_def)

end
